theory Spec2Isabelle
  imports Main "HOL-Library.Word"
begin

unbundle bit_operations_syntax

section \<open>Bytes, constants and errors\<close>

type_synonym byte = "8 word"

text \<open>
  Modelled from the spec: the constant block of the package is not among the sources
  (\<open>tlsHeaderSize\<close>, \<open>tlsRandomSize\<close>, \<open>tlsSessionIDSize\<close>, \<open>hmacSize\<close>, the two
  indices, \<open>tlsHmacHeaderSize\<close> and the content and handshake types). The spec fixes
  their values: a 5-byte record header, a 32-byte random at offset 11, the session-id
  length byte at offset 43, a 32-byte session id, a 4-byte tag, a 9-byte tagged header,
  \<open>handshake = 22\<close>, \<open>application_data = 23\<close>, \<open>alert = 21\<close>, \<open>client_hello = 1\<close>,
  \<open>server_hello = 2\<close>.
\<close>

abbreviation (input) tlsRandomSize :: nat where "tlsRandomSize \<equiv> 32"
abbreviation (input) tlsHeaderSize :: nat where "tlsHeaderSize \<equiv> 5"
abbreviation (input) tlsSessionIDSize :: nat where "tlsSessionIDSize \<equiv> 32"
abbreviation (input) hmacSize :: nat where "hmacSize \<equiv> 4"
abbreviation (input) serverRandomIndex :: nat where "serverRandomIndex \<equiv> tlsHeaderSize + 1 + 3 + 2"
abbreviation (input) sessionIDLengthIndex :: nat where
  "sessionIDLengthIndex \<equiv> tlsHeaderSize + 1 + 3 + 2 + tlsRandomSize"
abbreviation (input) tlsHmacHeaderSize :: nat where "tlsHmacHeaderSize \<equiv> tlsHeaderSize + hmacSize"

abbreviation (input) clientHello :: byte where "clientHello \<equiv> 1"
abbreviation (input) serverHello :: byte where "serverHello \<equiv> 2"
abbreviation (input) alert :: byte where "alert \<equiv> 21"
abbreviation (input) handshake :: byte where "handshake \<equiv> 22"
abbreviation (input) applicationData :: byte where "applicationData \<equiv> 23"

text \<open>
  Every error value the modelled functions return. \<open>Cause e msg\<close> is \<open>E.Cause(e, msg)\<close>;
  \<open>ConnError n\<close> stands for an error of the transport (the underlying \<open>net.Conn\<close>).
\<close>

datatype error =
    EOF
  | ErrUnexpectedEOF
  | ErrInvalid
  | ErrClosed
  | UnknownProtocolVersion int
  | UnexpectedRecordType
  | UnexpectedHandshakeType
  | UnexpectedSessionIDLength
  | HmacMismatch
  | VerificationFailed
  | UnexpectedTLSRecordType byte
  | ConnError nat
  | Cause error string

text \<open>A Go slice expression \<open>s[lo:hi]\<close>, used only where the source has checked the bounds.\<close>

definition subslice :: "'a list \<Rightarrow> nat \<Rightarrow> nat \<Rightarrow> 'a list" where
  "subslice s lo hi = take (hi - lo) (drop lo s)"

text \<open>\<open>binary.BigEndian.Uint16\<close> and \<open>binary.BigEndian.PutUint16\<close>.\<close>

definition Uint16 :: "byte \<Rightarrow> byte \<Rightarrow> 16 word" where
  "Uint16 hi lo = push_bit 8 (ucast hi) OR ucast lo"

definition PutUint16 :: "16 word \<Rightarrow> byte list" where
  "PutUint16 v = [ucast (drop_bit 8 v), ucast v]"

section \<open>HMAC-SHA1\<close>

text \<open>
  \<open>crypto/sha1\<close> and \<open>crypto/hmac\<close> of the Go standard library, as FIPS 180-4 and
  RFC 2104 define them: a message is padded to a multiple of 64 bytes, each block is
  compressed in 80 rounds, and the digest is the five state words in big-endian order.
\<close>

definition rotl :: "nat \<Rightarrow> 32 word \<Rightarrow> 32 word" where
  "rotl n w = push_bit n w OR drop_bit (32 - n) w"

definition be32 :: "byte list \<Rightarrow> 32 word" where
  "be32 bs = foldl (\<lambda>acc b. push_bit 8 acc OR ucast b) 0 bs"

definition word_bytes :: "32 word \<Rightarrow> byte list" where
  "word_bytes w = [ucast (drop_bit 24 w), ucast (drop_bit 16 w), ucast (drop_bit 8 w), ucast w]"

definition len_bytes :: "nat \<Rightarrow> byte list" where
  "len_bytes n = (let w = (of_nat n :: 64 word) in
     [ucast (drop_bit 56 w), ucast (drop_bit 48 w), ucast (drop_bit 40 w), ucast (drop_bit 32 w),
      ucast (drop_bit 24 w), ucast (drop_bit 16 w), ucast (drop_bit 8 w), ucast w])"

definition sha1_pad :: "byte list \<Rightarrow> byte list" where
  "sha1_pad m =
     m @ [0x80] @ replicate ((119 - length m mod 64) mod 64) 0 @ len_bytes (8 * length m)"

fun words_of :: "nat \<Rightarrow> byte list \<Rightarrow> 32 word list" where
  "words_of 0 bs = []"
| "words_of (Suc n) bs = be32 (take 4 bs) # words_of n (drop 4 bs)"

definition sha1_f :: "nat \<Rightarrow> 32 word \<Rightarrow> 32 word \<Rightarrow> 32 word \<Rightarrow> 32 word" where
  "sha1_f t b c d =
     (if t < 20 then (b AND c) OR (NOT b AND d)
      else if t < 40 then b XOR c XOR d
      else if t < 60 then (b AND c) OR (b AND d) OR (c AND d)
      else b XOR c XOR d)"

definition sha1_k :: "nat \<Rightarrow> 32 word" where
  "sha1_k t =
     (if t < 20 then 0x5A827999 else if t < 40 then 0x6ED9EBA1
      else if t < 60 then 0x8F1BBCDC else 0xCA62C1D6)"

type_synonym sha1_state = "32 word \<times> 32 word \<times> 32 word \<times> 32 word \<times> 32 word"

text \<open>
  The 80 rounds over a sliding window of the last 16 schedule words: \<open>hd w\<close> is the word
  of round \<open>t\<close>, and the window is extended by the word of round \<open>t + 16\<close>.
\<close>

fun sha1_rounds :: "nat \<Rightarrow> nat \<Rightarrow> 32 word list \<Rightarrow> sha1_state \<Rightarrow> sha1_state" where
  "sha1_rounds 0 t w s = s"
| "sha1_rounds (Suc n) t w (a, b, c, d, e) =
     (let wt = hd w;
          w' = tl w @ [rotl 1 (w ! 13 XOR w ! 8 XOR w ! 2 XOR w ! 0)];
          tmp = rotl 5 a + sha1_f t b c d + e + sha1_k t + wt
      in sha1_rounds n (Suc t) w' (tmp, a, rotl 30 b, c, d))"

definition sha1_block :: "sha1_state \<Rightarrow> byte list \<Rightarrow> sha1_state" where
  "sha1_block s blk =
     (case s of (h0, h1, h2, h3, h4) \<Rightarrow>
        (case sha1_rounds 80 0 (words_of 16 blk) s of (a, b, c, d, e) \<Rightarrow>
           (h0 + a, h1 + b, h2 + c, h3 + d, h4 + e)))"

fun sha1_blocks :: "nat \<Rightarrow> sha1_state \<Rightarrow> byte list \<Rightarrow> sha1_state" where
  "sha1_blocks 0 s bs = s"
| "sha1_blocks (Suc n) s bs = sha1_blocks n (sha1_block s (take 64 bs)) (drop 64 bs)"

definition sha1 :: "byte list \<Rightarrow> byte list" where
  "sha1 m =
     (let p = sha1_pad m in
      case sha1_blocks (length p div 64)
             (0x67452301, 0xEFCDAB89, 0x98BADCFE, 0x10325476, 0xC3D2E1F0) p
      of (a, b, c, d, e) \<Rightarrow> concat (map word_bytes [a, b, c, d, e]))"

definition hmac_key :: "byte list \<Rightarrow> byte list" where
  "hmac_key k =
     (let k' = (if length k > 64 then sha1 k else k) in k' @ replicate (64 - length k') 0)"

definition hmac_sha1 :: "byte list \<Rightarrow> byte list \<Rightarrow> byte list" where
  "hmac_sha1 k m =
     (let k0 = hmac_key k in
      sha1 (map (\<lambda>b. b XOR 0x5c) k0 @ sha1 (map (\<lambda>b. b XOR 0x36) k0 @ m)))"

text \<open>
  A \<open>hash.Hash\<close> made by \<open>hmac.New(sha1.New, key)\<close>: the key and everything written
  since the last reset. \<open>Write\<close> appends, \<open>Sum(nil)\<close> is the MAC of what was written and
  leaves the state as it is, \<open>Reset\<close> forgets what was written.
\<close>

record hmac =
  key :: "byte list"
  written :: "byte list"

definition hmac_New :: "byte list \<Rightarrow> hmac" where
  "hmac_New k = \<lparr>key = k, written = []\<rparr>"

definition hmac_Write :: "hmac \<Rightarrow> byte list \<Rightarrow> hmac" where
  "hmac_Write h p = h\<lparr>written := written h @ p\<rparr>"

definition hmac_Sum :: "hmac \<Rightarrow> byte list" where
  "hmac_Sum h = hmac_sha1 (key h) (written h)"

definition hmac_Reset :: "hmac \<Rightarrow> hmac" where
  "hmac_Reset h = h\<lparr>written := []\<rparr>"

section \<open>Connections\<close>

text \<open>
  What the code sees of a \<open>net.Conn\<close> and of the process around it: the bytes the peer
  sends before it closes its side (\<open>incoming\<close>), the writes that reached the peer, in
  order (\<open>outgoing\<close>), the outcome of the coming write calls (\<open>wresults\<close>: \<open>None\<close> is
  success, and calls beyond the list succeed), and the bytes \<open>crypto/rand\<close> has to give
  (\<open>entropy\<close>; \<open>rand.Read\<close> fails when they run out). A failed write delivers nothing.
\<close>

record conn =
  incoming :: "byte list"
  outgoing :: "byte list list"
  wresults :: "error option list"
  entropy :: "byte list"

text \<open>
  \<open>io.ReadFull\<close>: the bytes read and the error. No byte at all is \<open>io.EOF\<close>, fewer than
  asked for is \<open>io.ErrUnexpectedEOF\<close>, and a read of no bytes succeeds.
\<close>

definition ReadFull :: "conn \<Rightarrow> nat \<Rightarrow> (byte list \<times> error option) \<times> conn" where
  "ReadFull c n =
     (if n = 0 then (([], None), c)
      else if incoming c = [] then (([], Some EOF), c)
      else if length (incoming c) < n
      then ((incoming c, Some ErrUnexpectedEOF), c\<lparr>incoming := []\<rparr>)
      else ((take n (incoming c), None), c\<lparr>incoming := drop n (incoming c)\<rparr>))"

definition conn_Write :: "conn \<Rightarrow> byte list \<Rightarrow> error option \<times> conn" where
  "conn_Write c data =
     (case wresults c of
        [] \<Rightarrow> (None, c\<lparr>outgoing := outgoing c @ [data]\<rparr>)
      | None # rs \<Rightarrow> (None, c\<lparr>outgoing := outgoing c @ [data], wresults := rs\<rparr>)
      | Some e # rs \<Rightarrow> (Some e, c\<lparr>wresults := rs\<rparr>))"

definition rand_Read :: "nat \<Rightarrow> conn \<Rightarrow> byte list option \<times> conn" where
  "rand_Read n c =
     (if length (entropy c) < n then (None, c)
      else (Some (take n (entropy c)), c\<lparr>entropy := drop n (entropy c)\<rparr>))"

definition sendAlert :: "conn \<Rightarrow> conn" where
  "sendAlert writer =
     (case rand_Read (31 - tlsHeaderSize) writer of
        (None, w) \<Rightarrow> w
      | (Some r, w) \<Rightarrow> snd (conn_Write w ([alert, 3, 3, 0, of_nat (31 - tlsHeaderSize)] @ r)))"

definition extractFrame :: "conn \<Rightarrow> (error + byte list) \<times> conn" where
  "extractFrame c =
     (case ReadFull c tlsHeaderSize of
        ((tlsHeader, Some err), c1) \<Rightarrow> (Inl err, c1)
      | ((tlsHeader, None), c1) \<Rightarrow>
          (case ReadFull c1 (unat (Uint16 (tlsHeader ! 3) (tlsHeader ! 4))) of
             ((body, Some err), c2) \<Rightarrow> (Inl err, c2)
           | ((body, None), c2) \<Rightarrow> (Inr (tlsHeader @ body), c2)))"

section \<open>The verified connection\<close>

text \<open>
  \<open>buffer\<close> is the unread part of the record held by \<open>c.buffer\<close>, \<open>None\<close> for \<open>nil\<close>.
  The two writers wrap \<open>Conn\<close>; the mutex has no counterpart in a sequential model.
\<close>

record verifiedConn =
  Conn :: conn
  hmacAdd :: hmac
  hmacVerify :: hmac
  hmacIgnore :: "hmac option"
  buffer :: "byte list option"


text \<open>
  \<open>verifyApplicationData\<close> returns the verdict and the chain as the call leaves it. Its
  callers pass a whole record, at least the 5 header bytes, so \<open>frame[1]\<close> and
  \<open>frame[2]\<close> exist.
\<close>

definition verifyApplicationData :: "byte list \<Rightarrow> hmac \<Rightarrow> bool \<Rightarrow> bool \<times> hmac" where
  "verifyApplicationData frame h update =
     (if frame ! 1 \<noteq> 3 \<or> frame ! 2 \<noteq> 3 \<or> length frame < tlsHmacHeaderSize then (False, h)
      else
        (let h1 = hmac_Write h (drop tlsHmacHeaderSize frame);
             hmacHash = take hmacSize (hmac_Sum h1);
             h2 = (if update then hmac_Write h1 hmacHash else h1)
         in (subslice frame tlsHeaderSize (tlsHeaderSize + hmacSize) = hmacHash, h2)))"

text \<open>
  \<open>buf.Buffer.Read\<close> of the sing library: \<open>io.EOF\<close> on an empty buffer, otherwise as many
  bytes as fit into the caller's slice of length \<open>blen\<close>.
\<close>

definition buffer_Read :: "verifiedConn \<Rightarrow> byte list \<Rightarrow> nat \<Rightarrow> (byte list \<times> error option) \<times> verifiedConn" where
  "buffer_Read c b blen =
     (if b = [] then (([], Some EOF), c\<lparr>buffer := Some b\<rparr>)
      else ((take blen b, None), c\<lparr>buffer := Some (drop blen b)\<rparr>))"

text \<open>The \<open>for\<close> loop of \<open>Read\<close>; \<open>blen\<close> is the length of the caller's slice.\<close>

function Read_loop :: "verifiedConn \<Rightarrow> nat \<Rightarrow> (byte list \<times> error option) \<times> verifiedConn" where
  "Read_loop c blen =
     (case ReadFull (Conn c) tlsHeaderSize of
        ((tlsHeader, Some err), k1) \<Rightarrow> (([], Some err), c\<lparr>Conn := sendAlert k1\<rparr>)
      | ((tlsHeader, None), k1) \<Rightarrow>
          (case ReadFull k1 (unat (Uint16 (tlsHeader ! 3) (tlsHeader ! 4))) of
             ((body, Some err), k2) \<Rightarrow>
               (([], Some err), c\<lparr>Conn := k2, buffer := Some (tlsHeader @ body)\<rparr>)
           | ((body, None), k2) \<Rightarrow>
               (let frame = tlsHeader @ body;
                    c1 = c\<lparr>Conn := k2, buffer := Some frame\<rparr>
                in if frame ! 0 = alert
                   then (([], Some (Cause ErrClosed ''remote alert'')), c1)
                   else if frame ! 0 = applicationData
                   then
                     (case (case hmacIgnore c1 of
                              None \<Rightarrow> (False, c1)
                            | Some hi \<Rightarrow>
                                (case verifyApplicationData frame hi False of
                                   (True, hi') \<Rightarrow> (True, c1\<lparr>hmacIgnore := Some hi'\<rparr>)
                                 | (False, hi') \<Rightarrow> (False, c1\<lparr>hmacIgnore := None\<rparr>))) of
                        (True, c2) \<Rightarrow> Read_loop (c2\<lparr>buffer := None\<rparr>) blen
                      | (False, c2) \<Rightarrow>
                          (case verifyApplicationData frame (hmacVerify c2) True of
                             (False, hv) \<Rightarrow>
                               (([], Some VerificationFailed),
                                c2\<lparr>hmacVerify := hv, Conn := sendAlert (Conn c2)\<rparr>)
                           | (True, hv) \<Rightarrow>
                               buffer_Read (c2\<lparr>hmacVerify := hv\<rparr>)
                                 (drop tlsHmacHeaderSize frame) blen))
                   else (([], Some (UnexpectedTLSRecordType (frame ! 0))),
                         c1\<lparr>Conn := sendAlert (Conn c1)\<rparr>))))"
  by pat_completeness auto

termination Read_loop
  apply (relation "measure (\<lambda>(c, blen). length (incoming (Conn c)))")
   apply simp
  apply (auto simp: ReadFull_def split: option.splits prod.splits bool.splits if_splits)
  done

definition Read :: "verifiedConn \<Rightarrow> nat \<Rightarrow> (byte list \<times> error option) \<times> verifiedConn" where
  "Read c blen =
     (case buffer c of
        Some b \<Rightarrow> if b \<noteq> [] then buffer_Read c b blen else Read_loop (c\<lparr>buffer := None\<rparr>) blen
      | None \<Rightarrow> Read_loop c blen)"

text \<open>
  The method \<open>write\<close>, here \<open>write_one\<close>, emits one record: the header and the payload
  leave in a single vectorised write. The length field is computed in \<open>uint16\<close>, as the
  source does.
\<close>

definition write_one :: "verifiedConn \<Rightarrow> byte list \<Rightarrow> (nat \<times> error option) \<times> verifiedConn" where
  "write_one c p =
     (let h1 = hmac_Write (hmacAdd c) p;
          hmacHash = take hmacSize (hmac_Sum h1);
          h2 = hmac_Write h1 hmacHash;
          header = [applicationData, 3, 3] @ PutUint16 (4 + of_nat (length p)) @ hmacHash
      in case conn_Write (Conn c) (header @ p) of
           (err, k) \<Rightarrow>
             ((if err = None then length p else 0, err), c\<lparr>hmacAdd := h2, Conn := k\<rparr>))"

text \<open>The loop of \<open>Write\<close>, with the variable \<open>err\<close> that every iteration overwrites.\<close>

function Write_loop :: "verifiedConn \<Rightarrow> byte list \<Rightarrow> error option \<Rightarrow> error option \<times> verifiedConn" where
  "Write_loop c p err =
     (if length p > 0
      then (if length p > 16384
            then Write_loop (snd (write_one c (take 16384 p))) (drop 16384 p)
                   (snd (fst (write_one c (take 16384 p))))
            else Write_loop (snd (write_one c p)) [] (snd (fst (write_one c p))))
      else (err, c))"
  by pat_completeness auto
termination
  by (relation "measure (\<lambda>(c, p, err). length p)") auto

definition Write :: "verifiedConn \<Rightarrow> byte list \<Rightarrow> (nat \<times> error option) \<times> verifiedConn" where
  "Write c p =
     (case Write_loop c p None of
        (err, c') \<Rightarrow> ((if err = None then length p else 0, err), c'))"

section \<open>The version-3 server\<close>

text \<open>
  Modelled from the spec: the declaration of \<open>User\<close> is not among the sources; the spec
  gives it one field, the password.
\<close>

record User =
  Password :: "byte list"

text \<open>The loop of \<open>verifyClientHello\<close> over the users; \<open>rw.ZeroBytes\<close> is all zero.\<close>

fun verifyClientHello_users :: "byte list \<Rightarrow> User list \<Rightarrow> error + User" where
  "verifyClientHello_users frame [] = Inl HmacMismatch"
| "verifyClientHello_users frame (user # users) =
     (let hmacIndex = sessionIDLengthIndex + 1 + tlsSessionIDSize - hmacSize;
          h1 = hmac_Write (hmac_New (Password user)) (subslice frame tlsHeaderSize hmacIndex);
          h2 = hmac_Write h1 (replicate 4 0);
          h3 = hmac_Write h2 (drop (hmacIndex + hmacSize) frame)
      in if subslice frame hmacIndex (hmacIndex + hmacSize) = take hmacSize (hmac_Sum h3)
         then Inr user
         else verifyClientHello_users frame users)"

definition verifyClientHello :: "byte list \<Rightarrow> User list \<Rightarrow> error + User" where
  "verifyClientHello frame users =
     (let minLen = tlsHeaderSize + 1 + 3 + 2 + tlsRandomSize + 1 + tlsSessionIDSize
      in if length frame < minLen then Inl ErrUnexpectedEOF
         else if frame ! 0 \<noteq> handshake then Inl UnexpectedRecordType
         else if frame ! 5 \<noteq> clientHello then Inl UnexpectedHandshakeType
         else if frame ! sessionIDLengthIndex \<noteq> of_nat tlsSessionIDSize
         then Inl UnexpectedSessionIDLength
         else verifyClientHello_users frame users)"

definition extractServerRandom :: "byte list \<Rightarrow> byte list option" where
  "extractServerRandom frame =
     (let minLen = tlsHeaderSize + 1 + 3 + 2 + tlsRandomSize
      in if length frame < minLen \<or> frame ! 0 \<noteq> handshake \<or> frame ! 5 \<noteq> serverHello then None
         else Some (subslice frame serverRandomIndex (serverRandomIndex + tlsRandomSize)))"

text \<open>
  The \<open>bytes.Reader\<close> of \<open>isServerHelloSupportTLS13\<close> is the list of bytes not read yet.
  \<open>binary.Read\<close> of a \<open>uint8\<close> or a \<open>uint16\<close> and \<open>io.CopyN\<close> into \<open>io.Discard\<close> fail
  (\<open>None\<close>) when the reader holds too few bytes.
\<close>

definition read_uint8 :: "byte list \<Rightarrow> (byte \<times> byte list) option" where
  "read_uint8 reader = (case reader of [] \<Rightarrow> None | b # r \<Rightarrow> Some (b, r))"

definition read_uint16 :: "byte list \<Rightarrow> (16 word \<times> byte list) option" where
  "read_uint16 reader =
     (case reader of hi # lo # r \<Rightarrow> Some (Uint16 hi lo, r) | _ \<Rightarrow> None)"

definition CopyN_Discard :: "byte list \<Rightarrow> nat \<Rightarrow> byte list option" where
  "CopyN_Discard reader n = (if length reader < n then None else Some (drop n reader))"

text \<open>The \<open>for\<close> loop over the extensions, with its counter \<open>i\<close>.\<close>

function scan_extensions :: "16 word \<Rightarrow> 16 word \<Rightarrow> byte list \<Rightarrow> bool" where
  "scan_extensions i extensionListLength reader =
     (if i < extensionListLength
      then
        (case read_uint16 reader of
           None \<Rightarrow> False
         | Some (extensionType, r1) \<Rightarrow>
             (case read_uint16 r1 of
                None \<Rightarrow> False
              | Some (extensionLength, r2) \<Rightarrow>
                  if extensionType \<noteq> 43
                  then (case CopyN_Discard r2 (unat extensionLength) of
                          None \<Rightarrow> False
                        | Some r3 \<Rightarrow> scan_extensions (i + 1) extensionListLength r3)
                  else if extensionLength \<noteq> 2 then False
                  else (case read_uint16 r2 of
                          None \<Rightarrow> False
                        | Some (extensionValue, r3) \<Rightarrow> extensionValue = 0x0304)))
      else False)"
  by pat_completeness auto
termination
  apply (relation "measure (\<lambda>(i, n, reader). length reader)")
   apply simp
  apply (auto simp: read_uint16_def CopyN_Discard_def split: list.splits if_splits)
  done

definition isServerHelloSupportTLS13 :: "byte list \<Rightarrow> bool" where
  "isServerHelloSupportTLS13 frame =
     (if length frame < sessionIDLengthIndex then False
      else
        (case read_uint8 (drop sessionIDLengthIndex frame) of
           None \<Rightarrow> False
         | Some (sessionIdLength, r1) \<Rightarrow>
             (case CopyN_Discard r1 (unat sessionIdLength) of
                None \<Rightarrow> False
              | Some r2 \<Rightarrow>
                  (case CopyN_Discard r2 3 of
                     None \<Rightarrow> False
                   | Some r3 \<Rightarrow>
                       (case read_uint16 r3 of
                          None \<Rightarrow> False
                        | Some (extensionListLength, r4) \<Rightarrow>
                            scan_extensions 0 extensionListLength r4)))))"

text \<open>
  \<open>copyByFrameUntilHMACMatches\<close>: the client connection, the connection to the cover
  host, the chain and the closure \<open>hmacReset\<close>, which acts on the chain. The result is
  the error or the first tunnelled frame, with both connections and the chain as the
  loop leaves them.
\<close>

function copyByFrameUntilHMACMatches ::
  "conn \<Rightarrow> conn \<Rightarrow> hmac \<Rightarrow> (hmac \<Rightarrow> hmac) \<Rightarrow> (error + byte list) \<times> conn \<times> conn \<times> hmac" where
  "copyByFrameUntilHMACMatches c handshakeConn hv hmacReset =
     (case extractFrame c of
        (Inl err, c') \<Rightarrow> (Inl (Cause err ''read client record''), c', handshakeConn, hv)
      | (Inr frame, c') \<Rightarrow>
          (case (if length frame > tlsHmacHeaderSize \<and> frame ! 0 = applicationData
                 then (let hv1 = hmac_Write (hmacReset hv) (drop tlsHmacHeaderSize frame);
                           hmacHash = take 4 (hmac_Sum hv1)
                       in if hmacHash = subslice frame tlsHeaderSize tlsHmacHeaderSize
                          then (True,
                                hmac_Write
                                  (hmac_Write (hmacReset hv1) (drop tlsHmacHeaderSize frame))
                                  (subslice frame tlsHeaderSize tlsHmacHeaderSize))
                          else (False, hv1))
                 else (False, hv)) of
             (True, hv') \<Rightarrow> (Inr (drop tlsHmacHeaderSize frame), c', handshakeConn, hv')
           | (False, hv') \<Rightarrow>
               (case conn_Write handshakeConn frame of
                  (Some err, hc') \<Rightarrow> (Inl (Cause err ''write clint frame''), c', hc', hv')
                | (None, hc') \<Rightarrow> copyByFrameUntilHMACMatches c' hc' hv' hmacReset)))"
  by pat_completeness auto
termination
  apply (relation "measure (\<lambda>(c, hc, hv, r). length (incoming c))")
   apply simp
  apply (auto simp: extractFrame_def ReadFull_def split: option.splits prod.splits if_splits)
  done


definition hmacVerifyReset :: "byte list \<Rightarrow> hmac \<Rightarrow> hmac" where
  "hmacVerifyReset serverRandom hv =
     hmac_Write (hmac_Write (hmac_Reset hv) serverRandom) [0x43]"

text \<open>
  What \<open>NewConnection\<close> and the relay from the cover host use of code that is not among
  the sources. \<open>kdf\<close> and \<open>xorSlice\<close> belong to this package (\<open>xorSlice\<close> works in place;
  here it returns the masked bytes). \<open>conn_Close\<close> is \<open>net.Conn.Close\<close>,
  \<open>IsClosedOrCanceled\<close> is \<open>E.IsClosedOrCanceled\<close>, and \<open>group_Run\<close> is \<open>task.Group.Run\<close>
  of the sing library, given the named tasks and the cleanup of the group: how it
  schedules the tasks, what it does when one fails and which error it returns is its
  affair. The tasks of the group share the variables of \<open>relay_state\<close>: both connections,
  the chains \<open>hmacWrite\<close> and \<open>hmacVerify\<close>, \<open>clientFirstFrame\<close> and \<open>handshakeFinished\<close>.
  A task is given to the group as what it does to these variables when it runs from a
  state of them to its end.
\<close>

record relay_state =
  client :: conn
  cover :: conn
  chainWrite :: hmac
  chainVerify :: hmac
  clientFirstFrame :: "byte list option"
  handshakeFinished :: bool

record runtime =
  kdf :: "byte list \<Rightarrow> byte list \<Rightarrow> byte list"
  xorSlice :: "byte list \<Rightarrow> byte list \<Rightarrow> byte list"
  conn_Close :: "conn \<Rightarrow> conn"
  IsClosedOrCanceled :: "error \<Rightarrow> bool"
  group_Run ::
    "(string \<times> (relay_state \<Rightarrow> error option \<times> relay_state)) list
     \<Rightarrow> (relay_state \<Rightarrow> relay_state) \<Rightarrow> relay_state \<Rightarrow> error option \<times> relay_state"






section \<open>The service constructor\<close>

text \<open>
  \<open>ServiceConfig\<close> and \<open>Service\<close>. The address, dialer, handler and logger types belong
  to other packages: they are type parameters, an interface value that may be \<open>nil\<close> is
  an \<open>option\<close>, and \<open>Socksaddr.IsValid\<close> is the parameter \<open>IsValid\<close> of \<open>NewService\<close>.
\<close>

record ('a, 'd, 'h, 'l) ServiceConfig =
  Version :: int
  Password :: "byte list"
  HandshakeServer :: 'a
  HandshakeDialer :: "'d option"
  Handler :: "'h option"
  Logger :: "'l option"

record ('a, 'd, 'h, 'l) Service =
  version :: int
  password :: "byte list"
  handshakeServer :: 'a
  handshakeDialer :: "'d option"
  handler :: "'h option"
  logger :: "'l option"

definition NewService ::
  "('a \<Rightarrow> bool) \<Rightarrow> ('a, 'd, 'h, 'l) ServiceConfig \<Rightarrow> error + ('a, 'd, 'h, 'l) Service" where
  "NewService IsValid config =
     (let service = \<lparr>version = Version config, password = Password config,
                     handshakeServer = HandshakeServer config,
                     handshakeDialer = HandshakeDialer config,
                     handler = Handler config, logger = Logger config\<rparr>
      in if \<not> IsValid (handshakeServer service) \<or> handler service = None \<or> logger service = None
         then Inl ErrInvalid
         else if Version config = 1 \<or> Version config = 2 \<or> Version config = 3
         then Inr service
         else Inl (UnknownProtocolVersion (Version config)))"

section \<open>The data model and the claims, in the words of the spec\<close>

text \<open>
  The definitions of this section do not come from the code. They say what the spec says,
  so that the functions above can be compared with them.

  A record is a 5-byte header and a payload whose length is the big-endian number in
  bytes 3 and 4 of the header.
\<close>

definition is_record :: "byte list \<Rightarrow> bool" where
  "is_record frame =
     (tlsHeaderSize \<le> length frame
      \<and> length frame = tlsHeaderSize + unat (Uint16 (frame ! 3) (frame ! 4)))"

text \<open>
  The chain rule: the tag of a payload is the MAC, cut to 4 bytes, of everything the
  chain has taken in followed by the payload, and the chain goes on with the payload and
  the tag. A tagged record is \<open>17 03 03\<close>, the length of tag and payload in two bytes,
  the tag and the payload.
\<close>

definition tag_of :: "hmac \<Rightarrow> byte list \<Rightarrow> byte list" where
  "tag_of h q = take 4 (hmac_sha1 (key h) (written h @ q))"

definition chain_step :: "hmac \<Rightarrow> byte list \<Rightarrow> hmac" where
  "chain_step h q = h\<lparr>written := written h @ q @ tag_of h q\<rparr>"

definition tagged_record :: "hmac \<Rightarrow> byte list \<Rightarrow> byte list" where
  "tagged_record h q =
     [0x17, 0x03, 0x03, of_nat ((4 + length q) div 256), of_nat ((4 + length q) mod 256)]
     @ tag_of h q @ q"

fun tagged_records :: "hmac \<Rightarrow> byte list list \<Rightarrow> byte list list" where
  "tagged_records h [] = []"
| "tagged_records h (q # qs) = tagged_record h q # tagged_records (chain_step h q) qs"

fun chain_after :: "hmac \<Rightarrow> byte list list \<Rightarrow> hmac" where
  "chain_after h [] = h"
| "chain_after h (q # qs) = chain_after (chain_step h q) qs"


text \<open>
  The fragments of a write: the successive pieces of 16384 bytes, the last one being what
  remains.
\<close>

definition fragments :: "byte list \<Rightarrow> byte list list" where
  "fragments p =
     map (\<lambda>i. take 16384 (drop (16384 * i) p)) [0..<(length p + 16383) div 16384]"

text \<open>
  The outcome of the \<open>k\<close>-th coming write call of a connection, and whether the next one
  succeeds.
\<close>

definition outcome :: "error option list \<Rightarrow> nat \<Rightarrow> error option" where
  "outcome rs k = (if k < length rs then rs ! k else None)"

definition write_succeeds :: "conn \<Rightarrow> bool" where
  "write_succeeds c = (case wresults c of Some e # rs \<Rightarrow> False | _ \<Rightarrow> True)"

text \<open>
  The ClientHello check of one user, and the authenticator as the claim words it, with
  its bound of 75 bytes.
\<close>

definition clientHello_matches :: "byte list \<Rightarrow> User \<Rightarrow> bool" where
  "clientHello_matches frame user =
     (take 4 (hmac_sha1 (User.Password user)
                (subslice frame 5 72 @ [0, 0, 0, 0] @ drop 76 frame))
      = subslice frame 72 76)"

definition verifyClientHello_claimed :: "byte list \<Rightarrow> User list \<Rightarrow> error + User" where
  "verifyClientHello_claimed frame users =
     (if length frame < 75 then Inl ErrUnexpectedEOF
      else if frame ! 0 \<noteq> 22 then Inl UnexpectedRecordType
      else if frame ! 5 \<noteq> 1 then Inl UnexpectedHandshakeType
      else if frame ! 43 \<noteq> 32 then Inl UnexpectedSessionIDLength
      else (case find (clientHello_matches frame) users of
              Some user \<Rightarrow> Inr user
            | None \<Rightarrow> Inl HmacMismatch))"

text \<open>
  The test that makes a client record the first tunnelled frame of a session with the
  given password and server random.
\<close>

definition is_first_frame :: "byte list \<Rightarrow> byte list \<Rightarrow> byte list \<Rightarrow> bool" where
  "is_first_frame pw serverRandom frame =
     (frame ! 0 = 23 \<and> 9 < length frame
      \<and> take 4 (hmac_sha1 pw (serverRandom @ [0x43] @ drop 9 frame)) = subslice frame 5 9)"

text \<open>
  An extension on the wire: type, length of the value, value. \<open>supported_versions_in\<close>
  is the search the claim describes, over the bytes of an extension list, and
  \<open>is_tls13_claimed\<close> applies it to the list of the declared length, which must be there
  in full.
\<close>

definition encode_extension :: "16 word \<times> byte list \<Rightarrow> byte list" where
  "encode_extension e = PutUint16 (fst e) @ PutUint16 (of_nat (length (snd e))) @ snd e"

function supported_versions_in :: "byte list \<Rightarrow> bool" where
  "supported_versions_in list =
     (case read_uint16 list of
        None \<Rightarrow> False
      | Some (ty, r1) \<Rightarrow>
          (case read_uint16 r1 of
             None \<Rightarrow> False
           | Some (len, r2) \<Rightarrow>
               if ty = 43
               then len = 2 \<and> (case read_uint16 r2 of None \<Rightarrow> False | Some (v, r3) \<Rightarrow> v = 0x0304)
               else (case CopyN_Discard r2 (unat len) of
                       None \<Rightarrow> False
                     | Some r3 \<Rightarrow> supported_versions_in r3)))"
  by pat_completeness auto
termination
  apply (relation "measure length")
   apply simp
  apply (auto simp: read_uint16_def CopyN_Discard_def split: list.splits if_splits)
  done

definition is_tls13_claimed :: "byte list \<Rightarrow> bool" where
  "is_tls13_claimed record =
     (case read_uint8 (drop 43 record) of
        None \<Rightarrow> False
      | Some (n, r1) \<Rightarrow>
          (case CopyN_Discard r1 (unat n) of
             None \<Rightarrow> False
           | Some r2 \<Rightarrow>
               (case CopyN_Discard r2 3 of
                  None \<Rightarrow> False
                | Some r3 \<Rightarrow>
                    (case read_uint16 r3 of
                       None \<Rightarrow> False
                     | Some (len, r4) \<Rightarrow>
                         if length r4 < unat len then False
                         else supported_versions_in (take (unat len) r4)))))"

section \<open>Example inputs\<close>

text \<open>
  The inputs of the witnesses and counterexamples. A tag that matches is written as the
  MAC it is, cut to 4 bytes; a tag that does not match is that tag with 1 added to each
  byte. The chains have the key \<open>01\<close>.
\<close>

definition example_chain :: hmac where
  "example_chain = \<lparr>key = [1], written = [2]\<rparr>"

definition tagged_frame :: "byte list" where
  "tagged_frame = [23, 3, 3, 0, 5] @ take 4 (hmac_sha1 [1] [2, 7]) @ [7]"

definition mistagged_frame :: "byte list" where
  "mistagged_frame = [23, 3, 3, 0, 5] @ map (\<lambda>b. b + 1) (take 4 (hmac_sha1 [1] [2, 7])) @ [7]"

definition empty_frame :: "byte list" where
  "empty_frame = [23, 3, 3, 0, 4] @ take 4 (hmac_sha1 [1] [2])"

definition bad_version_frame :: "byte list" where
  "bad_version_frame = [23, 3, 1, 0, 5] @ take 4 (hmac_sha1 [1] [3, 7]) @ [7]"

definition example_conn :: "byte list \<Rightarrow> hmac option \<Rightarrow> verifiedConn" where
  "example_conn bs ignore =
     \<lparr>Conn = \<lparr>incoming = bs, outgoing = [], wresults = [], entropy = replicate 26 9\<rparr>,
      hmacAdd = hmac_New [1], hmacVerify = \<lparr>key = [1], written = [3]\<rparr>,
      hmacIgnore = ignore, buffer = None\<rparr>"

definition plain_conn :: "byte list \<Rightarrow> conn" where
  "plain_conn bs = \<lparr>incoming = bs, outgoing = [], wresults = [], entropy = []\<rparr>"

definition example_random :: "byte list" where
  "example_random = replicate 32 7"

definition first_frame :: "byte list" where
  "first_frame = [23, 3, 3, 0, 5] @ take 4 (hmac_sha1 [1] (example_random @ [0x43, 9])) @ [9]"

definition handshake_frame :: "byte list" where
  "handshake_frame = [22, 3, 3, 0, 1, 20]"

definition unmarked_frame :: "byte list" where
  "unmarked_frame =
     [23, 3, 3, 0, 5] @ map (\<lambda>b. b + 1) (take 4 (hmac_sha1 [1] (example_random @ [0x43, 9]))) @ [9]"

definition hello_prefix :: "byte list" where
  "hello_prefix = [22, 3, 1, 0, 71, 1] @ replicate 37 0 @ [32] @ replicate 28 0"

definition signed_hello :: "byte list" where
  "signed_hello = hello_prefix @ take 4 (hmac_sha1 [1] (drop 5 hello_prefix @ [0, 0, 0, 0]))"

definition missigned_hello :: "byte list" where
  "missigned_hello =
     hello_prefix @ map (\<lambda>b. b + 1) (take 4 (hmac_sha1 [1] (drop 5 hello_prefix @ [0, 0, 0, 0])))"

definition short_hello :: "byte list" where
  "short_hello = [22, 3, 1, 0, 70, 1] @ replicate 37 0 @ [32] @ replicate 31 0"

definition hello_head :: "byte list" where
  "hello_head = [22, 3, 3, 0, 54, 2, 0, 0, 50, 3, 3] @ replicate 32 7"

definition tls13_hello :: "byte list" where
  "tls13_hello = hello_head @ [0, 0x13, 0x01, 0, 0, 10, 0, 0, 0, 0, 0, 43, 0, 2, 3, 4]"

definition stray_extension_hello :: "byte list" where
  "stray_extension_hello = hello_head @ [0, 0x13, 0x01, 0, 0, 4, 0, 0, 0, 0, 0, 43, 0, 2, 3, 4]"

text \<open>
  A runtime for the examples: the key of the mask is the password followed by the server
  random, the mask is XOR with the key repeated, a closed connection has nothing more to
  read, the errors of a closed connection are \<open>io.EOF\<close> and \<open>net.ErrClosed\<close>, also
  wrapped, and the group runs its tasks one after the other, in the order in which they
  were added, then the cleanup, and returns the first error under the name of its task.
\<close>

fun is_closed_error :: "error \<Rightarrow> bool" where
  "is_closed_error EOF = True"
| "is_closed_error ErrClosed = True"
| "is_closed_error (Cause e s) = is_closed_error e"
| "is_closed_error e = False"

fun run_in_turn ::
  "(string \<times> (relay_state \<Rightarrow> error option \<times> relay_state)) list
   \<Rightarrow> (relay_state \<Rightarrow> relay_state) \<Rightarrow> relay_state \<Rightarrow> error option \<times> relay_state" where
  "run_in_turn [] cleanup s = (None, cleanup s)"
| "run_in_turn ((name, task) # tasks) cleanup s =
     (case task s of
        (None, s') \<Rightarrow> run_in_turn tasks cleanup s'
      | (Some err, s') \<Rightarrow> (Some (Cause err name), snd (run_in_turn tasks cleanup s')))"

definition example_runtime :: runtime where
  "example_runtime =
     \<lparr>kdf = (\<lambda>pw sr. pw @ sr),
      xorSlice = (\<lambda>data k. map (\<lambda>(i, b). b XOR k ! (i mod length k)) (enumerate 0 data)),
      conn_Close = (\<lambda>c. c\<lparr>incoming := []\<rparr>),
      IsClosedOrCanceled = is_closed_error,
      group_Run = run_in_turn\<rparr>"

text \<open>
  An \<open>application_data\<close> record of the cover host with the payload \<open>08\<close>, and the
  verified connection of the example session.
\<close>

definition cover_frame :: "byte list" where
  "cover_frame = [23, 3, 3, 0, 1, 8]"


section \<open>Properties\<close>

subsection \<open>Auxiliary facts\<close>

lemma length_sha1: "length (sha1 m) = 20"
  by (simp add: sha1_def word_bytes_def Let_def split: prod.splits)

lemma length_hmac_sha1 [simp]: "length (hmac_sha1 k m) = 20"
  by (simp add: hmac_sha1_def Let_def length_sha1)

declare Read_loop.simps [simp del]

declare Write_loop.simps [simp del]

declare scan_extensions.simps [simp del]

declare copyByFrameUntilHMACMatches.simps [simp del]


declare supported_versions_in.simps [simp del]

lemma map_succ_neq: "length (t :: byte list) = 4 \<Longrightarrow> map (\<lambda>b. b + 1) t \<noteq> t"
  by (cases t) auto

lemma zero_bytes: "replicate 4 (0::byte) = [0, 0, 0, 0]"
  by (simp add: eval_nat_numeral)

lemma find_SomeD: "find P xs = Some x \<Longrightarrow> x \<in> set xs \<and> P x"
  by (induction xs) (auto split: if_splits)

lemma Uint16_small [simp]: "unat (Uint16 0 5) = 5" "unat (Uint16 0 4) = 4"
  by (simp_all add: Uint16_def)

lemma Uint16_examples [simp]: "Uint16 0 10 = 10" "Uint16 0 4 = 4" "Uint16 0 0 = 0"
  "Uint16 0 43 = 43" "Uint16 0 2 = 2" "Uint16 3 4 = 0x0304"
  by (simp_all add: Uint16_def)

lemma byte_high_bits: "\<not> bit (b :: byte) (8 + n)"
  using bit_imp_le_length [of b "8 + n"] by auto

lemma PutUint16_Uint16: "PutUint16 (Uint16 hi lo) = [hi, lo]"
  unfolding PutUint16_def Uint16_def
  by (auto intro!: bit_word_eqI simp: bit_simps byte_high_bits)

lemma Uint16_PutUint16: "PutUint16 v = [hi, lo] \<Longrightarrow> Uint16 hi lo = v"
  unfolding PutUint16_def Uint16_def
  by (auto intro!: bit_word_eqI simp: bit_simps)

lemma unat_succ_less: "(i :: 16 word) < n \<Longrightarrow> unat (i + 1) = Suc (unat i)"
proof -
  assume "i < n"
  then have "unat i < unat n" by (simp add: word_less_nat_alt)
  moreover have "unat n < 2 ^ 16" using unsigned_less [of n] by simp
  ultimately have "unat i + unat (1 :: 16 word) < 2 ^ LENGTH(16)" by simp
  then show ?thesis by (simp add: unat_add_lem [THEN iffD1])
qed

lemma unat_length: "n < 65536 \<Longrightarrow> unat (of_nat n :: 16 word) = n"
  by (simp add: unat_of_nat)

lemma PutUint16_consts: "PutUint16 43 = [0, 43]" "PutUint16 2 = [0, 2]" "PutUint16 0x0304 = [3, 4]"
  by (simp_all add: PutUint16_def)

lemma hi_byte: "m < 65536 \<Longrightarrow> (ucast (drop_bit 8 (of_nat m :: 16 word)) :: byte) = of_nat (m div 256)"
  apply (rule word_unat_eq_iff [THEN iffD2])
  apply (simp only: unsigned_ucast_eq unat_drop_bit_eq unat_of_nat)
  apply (simp add: drop_bit_eq_div take_bit_eq_mod)
  done

lemma lo_byte: "(ucast (of_nat m :: 16 word) :: byte) = of_nat (m mod 256)"
  apply (rule word_unat_eq_iff [THEN iffD2])
  apply (simp add: unsigned_ucast_eq unat_of_nat take_bit_eq_mod mod_mod_cancel)
  done

lemma PutUint16_length:
  "n \<le> 16384 \<Longrightarrow>
   PutUint16 (4 + of_nat n) = [of_nat ((4 + n) div 256), of_nat ((4 + n) mod 256)]"
  using hi_byte [of "4 + n"] lo_byte [of "4 + n"] by (simp add: PutUint16_def)





lemma ReadFull_append:
  "incoming c = xs @ rest \<Longrightarrow> length xs = n \<Longrightarrow> 0 < n
   \<Longrightarrow> ReadFull c n = ((xs, None), c\<lparr>incoming := rest\<rparr>)"
  by (auto simp: ReadFull_def)

lemma ReadFull_zero: "ReadFull c 0 = (([], None), c)"
  by (simp add: ReadFull_def)

lemma read_record:
  assumes "incoming c = frame @ rest" and "is_record frame"
  shows "ReadFull c tlsHeaderSize = ((take 5 frame, None), c\<lparr>incoming := drop 5 frame @ rest\<rparr>)"
    and "ReadFull (c\<lparr>incoming := drop 5 frame @ rest\<rparr>) (unat (Uint16 (frame ! 3) (frame ! 4)))
         = ((drop 5 frame, None), c\<lparr>incoming := rest\<rparr>)"
proof -
  from assms(2) have len: "5 \<le> length frame"
    and body: "length (drop 5 frame) = unat (Uint16 (frame ! 3) (frame ! 4))"
    by (simp_all add: is_record_def)
  have "incoming c = take 5 frame @ (drop 5 frame @ rest)"
    using assms(1) by simp
  then show "ReadFull c tlsHeaderSize = ((take 5 frame, None), c\<lparr>incoming := drop 5 frame @ rest\<rparr>)"
    using len by (intro ReadFull_append) simp_all
  show "ReadFull (c\<lparr>incoming := drop 5 frame @ rest\<rparr>) (unat (Uint16 (frame ! 3) (frame ! 4)))
         = ((drop 5 frame, None), c\<lparr>incoming := rest\<rparr>)"
  proof (cases "unat (Uint16 (frame ! 3) (frame ! 4)) = 0")
    case True
    with body show ?thesis by (simp add: ReadFull_zero)
  next
    case False
    then show ?thesis
      using ReadFull_append [of "c\<lparr>incoming := drop 5 frame @ rest\<rparr>" "drop 5 frame" rest, OF _ body]
      by simp
  qed
qed

lemma extractFrame_record:
  assumes "incoming c = frame @ rest" and "is_record frame"
  shows "extractFrame c = (Inr frame, c\<lparr>incoming := rest\<rparr>)"
proof -
  from assms(2) have "5 \<le> length frame" by (simp add: is_record_def)
  then have "take 5 frame ! 3 = frame ! 3" "take 5 frame ! 4 = frame ! 4" by simp_all
  then show ?thesis
    using read_record [OF assms] by (simp add: extractFrame_def)
qed

lemma conn_Write_outcome:
  "fst (conn_Write c d) = outcome (wresults c) 0"
  "wresults (snd (conn_Write c d)) = tl (wresults c)"
  "outgoing (snd (conn_Write c d)) = (if outcome (wresults c) 0 = None then outgoing c @ [d] else outgoing c)"
  by (auto simp: conn_Write_def outcome_def split: list.splits option.splits)


lemma outcome_tl: "outcome (tl rs) k = outcome rs (Suc k)"
  by (cases rs) (simp_all add: outcome_def)

lemma all_succeed_outcome: "list_all (\<lambda>r. r = None) rs \<Longrightarrow> outcome rs k = None"
  by (auto simp: outcome_def list_all_length)

lemma all_succeed_tl: "list_all (\<lambda>r. r = None) rs \<Longrightarrow> list_all (\<lambda>r. r = None) (tl rs)"
  by (cases rs) simp_all

lemma sendAlert_outgoing:
  "26 \<le> length (entropy c) \<Longrightarrow> write_succeeds c
   \<Longrightarrow> outgoing (sendAlert c) = outgoing c @ [[21, 3, 3, 0, 26] @ take 26 (entropy c)]"
  by (auto simp: sendAlert_def rand_Read_def conn_Write_def write_succeeds_def
      split: list.splits option.splits)

subsection \<open>The constructor\<close>

text \<open>
  C8. \<open>NewService\<close> fails exactly when the cover-host address is invalid, the handler is
  absent, the logger is absent, or the version is none of 1, 2 and 3. An error it returns
  is \<open>os.ErrInvalid\<close> or the unknown-version error of the configured version; every other
  configuration yields the service with the configuration's fields and no error.
\<close>

theorem NewService_fails_iff:
  fixes config :: "('a, 'd, 'h, 'l) ServiceConfig"
  shows "((\<exists>e. NewService IsValid config = Inl e)
          = (\<not> IsValid (HandshakeServer config) \<or> Handler config = None
             \<or> Logger config = None \<or> Version config \<notin> {1, 2, 3}))
       \<and> (\<forall>e. NewService IsValid config = Inl e \<longrightarrow>
              e = ErrInvalid \<or> e = UnknownProtocolVersion (Version config))
       \<and> (IsValid (HandshakeServer config) \<and> Handler config \<noteq> None \<and> Logger config \<noteq> None
           \<and> Version config \<in> {1, 2, 3} \<longrightarrow>
           NewService IsValid config =
             Inr \<lparr>version = Version config, password = Password config,
                  handshakeServer = HandshakeServer config,
                  handshakeDialer = HandshakeDialer config,
                  handler = Handler config, logger = Logger config\<rparr>)"
  by (auto simp: NewService_def Let_def)

theorem NewService_fails_iff_witness:
  "NewService (\<lambda>a. a \<noteq> (0::nat))
     \<lparr>Version = 3, Password = [1], HandshakeServer = 443,
      HandshakeDialer = Some (), Handler = Some (), Logger = Some ()\<rparr>
   = Inr \<lparr>version = 3, password = [1], handshakeServer = 443,
          handshakeDialer = Some (), handler = Some (), logger = Some ()\<rparr>
   \<and> NewService (\<lambda>a. a \<noteq> (0::nat))
     \<lparr>Version = 4, Password = [1], HandshakeServer = 443,
      HandshakeDialer = Some (), Handler = Some (), Logger = Some ()\<rparr>
   = Inl (UnknownProtocolVersion 4)"
  using NewService_fails_iff [of "\<lambda>a. a \<noteq> (0::nat)"
      "\<lparr>Version = 3, Password = [1], HandshakeServer = 443,
        HandshakeDialer = Some (), Handler = Some (), Logger = Some ()\<rparr>"]
    NewService_fails_iff [of "\<lambda>a. a \<noteq> (0::nat)"
      "\<lparr>Version = 4, Password = [1], HandshakeServer = 443,
        HandshakeDialer = Some (), Handler = Some (), Logger = Some ()\<rparr>"]
  by (simp add: NewService_def)

subsection \<open>The ClientHello authenticator\<close>

lemma verifyClientHello_users_find:
  "verifyClientHello_users frame users =
     (case find (clientHello_matches frame) users of
        Some user \<Rightarrow> Inr user
      | None \<Rightarrow> Inl HmacMismatch)"
  by (induction users) (auto simp: clientHello_matches_def Let_def hmac_New_def hmac_Write_def
      hmac_Sum_def zero_bytes)

text \<open>
  C2 (as amended). \<open>verifyClientHello\<close> accepts a frame exactly when it has at least 76
  bytes, byte 0 is 22, byte 5 is 1, byte 43 is 32, and for some user the HMAC-SHA1 under
  the user's password of \<open>frame[5:72]\<close>, four zero bytes and \<open>frame[76:]\<close>, cut to 4 bytes,
  is \<open>frame[72:76]\<close>; the user returned is the first such user. A frame of fewer than 76
  bytes is rejected as a short read, and a frame that passes the four checks and matches
  no user fails with the mismatch error.
\<close>

theorem verifyClientHello_accepts_iff:
  "((\<exists>user. verifyClientHello frame users = Inr user) =
      (76 \<le> length frame \<and> frame ! 0 = 22 \<and> frame ! 5 = 1 \<and> frame ! 43 = 32
       \<and> (\<exists>user \<in> set users. clientHello_matches frame user)))
   \<and> (length frame < 76 \<longrightarrow> verifyClientHello frame users = Inl ErrUnexpectedEOF)
   \<and> (76 \<le> length frame \<and> frame ! 0 = 22 \<and> frame ! 5 = 1 \<and> frame ! 43 = 32
       \<and> (\<forall>user \<in> set users. \<not> clientHello_matches frame user)
       \<longrightarrow> verifyClientHello frame users = Inl HmacMismatch)
   \<and> (\<forall>user. verifyClientHello frame users = Inr user \<longrightarrow>
         find (clientHello_matches frame) users = Some user)"
  by (auto simp: verifyClientHello_def verifyClientHello_users_find find_None_iff
      split: option.splits dest: find_SomeD)

lemma hello_lengths [simp]:
  "length hello_prefix = 72" "length signed_hello = 76" "length missigned_hello = 76"
  "length short_hello = 75"
  by (simp_all add: hello_prefix_def signed_hello_def missigned_hello_def short_hello_def)

lemma hello_bytes [simp]:
  "hello_prefix ! 0 = 22" "hello_prefix ! 5 = 1" "hello_prefix ! 43 = 32"
  "short_hello ! 0 = 22" "short_hello ! 5 = 1" "short_hello ! 43 = 32"
  "signed_hello ! 0 = 22" "signed_hello ! 5 = 1" "signed_hello ! 43 = 32"
  "missigned_hello ! 0 = 22" "missigned_hello ! 5 = 1" "missigned_hello ! 43 = 32"
  by (simp_all add: hello_prefix_def short_hello_def signed_hello_def missigned_hello_def
      nth_append)

lemma signed_hello_matches:
  "clientHello_matches signed_hello \<lparr>User.Password = [1]\<rparr>"
  "\<not> clientHello_matches missigned_hello \<lparr>User.Password = [1]\<rparr>"
  by (simp_all add: clientHello_matches_def signed_hello_def missigned_hello_def subslice_def
      map_succ_neq [symmetric])

theorem verifyClientHello_accepts_iff_witness:
  "verifyClientHello signed_hello [\<lparr>User.Password = [1]\<rparr>] = Inr \<lparr>User.Password = [1]\<rparr>
   \<and> verifyClientHello missigned_hello [\<lparr>User.Password = [1]\<rparr>] = Inl HmacMismatch
   \<and> verifyClientHello short_hello [\<lparr>User.Password = [1]\<rparr>] = Inl ErrUnexpectedEOF"
  using verifyClientHello_accepts_iff [of signed_hello "[\<lparr>User.Password = [1]\<rparr>]"]
    verifyClientHello_accepts_iff [of missigned_hello "[\<lparr>User.Password = [1]\<rparr>]"]
    verifyClientHello_accepts_iff [of short_hello "[\<lparr>User.Password = [1]\<rparr>]"]
  by (auto simp: signed_hello_matches)

text \<open>
  C2 as stated fails at 75 bytes: a frame of 75 bytes with the three marker bytes in
  place passes the checks of the claim, so with no matching user the claim answers with
  the mismatch error, while the code rejects the frame as too short.
\<close>

theorem short_hello_is_not_a_mismatch:
  "length short_hello = 75 \<and> short_hello ! 0 = 22 \<and> short_hello ! 5 = 1
   \<and> short_hello ! 43 = 32
   \<and> verifyClientHello_claimed short_hello [] = Inl HmacMismatch
   \<and> verifyClientHello short_hello [] = Inl ErrUnexpectedEOF"
  by (simp add: verifyClientHello_claimed_def verifyClientHello_def)

subsection \<open>The ServerHello inspector\<close>

lemma read_uint16_PutUint16: "read_uint16 (PutUint16 v @ r) = Some (v, r)"
  using Uint16_PutUint16 [of v] by (simp add: read_uint16_def PutUint16_def)

lemma read_uint16_SomeD:
  "read_uint16 r = Some (v, r') \<Longrightarrow> r = PutUint16 v @ r'"
  by (auto simp: read_uint16_def PutUint16_Uint16 split: list.splits)

lemma scan_extensions_complete:
  "\<forall>e \<in> set exts. fst e \<noteq> 43 \<and> length (snd e) < 65536 \<Longrightarrow>
   unat i + length exts < unat n \<Longrightarrow>
   scan_extensions i n (concat (map encode_extension exts) @ [0, 43, 0, 2, 3, 4] @ tail)"
proof (induction exts arbitrary: i)
  case Nil
  then have "i < n" by (simp add: word_less_nat_alt)
  then show ?case
    using read_uint16_PutUint16 [of 43 "[0, 2, 3, 4] @ tail"]
      read_uint16_PutUint16 [of 2 "[3, 4] @ tail"]
      read_uint16_PutUint16 [of "0x0304" tail]
    by (subst scan_extensions.simps) (simp add: PutUint16_consts)
next
  case (Cons e exts)
  let ?rest = "concat (map encode_extension exts) @ [0, 43, 0, 2, 3, 4] @ tail"
  from Cons.prems have lt: "i < n" and ty: "fst e \<noteq> 43" and len: "length (snd e) < 65536"
    by (simp_all add: word_less_nat_alt)
  have next_i: "unat (i + 1) + length exts < unat n"
    using Cons.prems(2) unat_succ_less [OF lt] by simp
  have rec: "scan_extensions (i + 1) n ?rest"
    using Cons.prems(1) next_i by (intro Cons.IH) simp_all
  have r1: "read_uint16 (encode_extension e @ ?rest)
            = Some (fst e, PutUint16 (of_nat (length (snd e))) @ snd e @ ?rest)"
    using read_uint16_PutUint16 [of "fst e"] by (simp add: encode_extension_def)
  have r2: "read_uint16 (PutUint16 (of_nat (length (snd e))) @ snd e @ ?rest)
            = Some (of_nat (length (snd e)), snd e @ ?rest)"
    by (rule read_uint16_PutUint16)
  have r3: "CopyN_Discard (snd e @ ?rest) (unat (of_nat (length (snd e)) :: 16 word)) = Some ?rest"
    by (simp add: CopyN_Discard_def unat_length [OF len])
  show ?case
    using lt ty rec r1 r2 r3
    by (subst scan_extensions.simps) simp
qed

lemma scan_extensions_sound:
  "scan_extensions i n r \<Longrightarrow>
   \<exists>exts tail. r = concat (map encode_extension exts) @ [0, 43, 0, 2, 3, 4] @ tail
     \<and> unat i + length exts < unat n
     \<and> (\<forall>e \<in> set exts. fst e \<noteq> 43 \<and> length (snd e) < 65536)"
proof (induction i n r rule: scan_extensions.induct)
  case (1 i n r)
  from "1.prems" have lt: "i < n"
    by (subst (asm) scan_extensions.simps) (simp split: if_splits)
  from "1.prems" lt obtain ty r1 len r2 where r1: "read_uint16 r = Some (ty, r1)"
    and r2: "read_uint16 r1 = Some (len, r2)"
    by (subst (asm) scan_extensions.simps) (auto split: option.splits)
  have r: "r = PutUint16 ty @ PutUint16 len @ r2"
    using read_uint16_SomeD [OF r1] read_uint16_SomeD [OF r2] by simp
  show ?case
  proof (cases "ty = 43")
    case True
    with "1.prems" lt r1 r2 obtain r3 where "len = 2" and "read_uint16 r2 = Some (0x0304, r3)"
      by (subst (asm) scan_extensions.simps) (auto split: option.splits if_splits)
    then have "r = [0, 43, 0, 2, 3, 4] @ r3"
      using r True read_uint16_SomeD [of r2 "0x0304" r3] by (simp add: PutUint16_consts)
    moreover have "unat i < unat n" using lt by (simp add: word_less_nat_alt)
    ultimately show ?thesis
      by (intro exI [of _ "[]"] exI [of _ r3]) simp
  next
    case False
    with "1.prems" lt r1 r2 obtain r3 where r3: "CopyN_Discard r2 (unat len) = Some r3"
      and rec: "scan_extensions (i + 1) n r3"
      by (subst (asm) scan_extensions.simps) (auto split: option.splits if_splits)
    from "1.IH" [OF lt r1 refl r2 refl False r3 rec] obtain exts tail
      where ih: "r3 = concat (map encode_extension exts) @ [0, 43, 0, 2, 3, 4] @ tail"
        "unat (i + 1) + length exts < unat n"
        "\<forall>e \<in> set exts. fst e \<noteq> 43 \<and> length (snd e) < 65536"
      by blast
    from r3 have enough: "unat len \<le> length r2" and r3_eq: "r3 = drop (unat len) r2"
      by (auto simp: CopyN_Discard_def split: if_splits)
    let ?e = "(ty, take (unat len) r2)"
    have value_len: "length (take (unat len) r2) = unat len"
      using enough by simp
    have "unat len < 65536" using unsigned_less [of len] by simp
    then have enc: "encode_extension ?e @ r3 = r"
      using r r3_eq enough by (simp add: encode_extension_def min_absorb2)
    show ?thesis
      using ih False enc unat_succ_less [OF lt] \<open>unat len < 65536\<close>
      by (intro exI [of _ "?e # exts"] exI [of _ tail]) (auto simp: min_absorb2 enough)
  qed
qed

lemma tls13_characterisation:
  "isServerHelloSupportTLS13 frame =
     (\<exists>sessionIdLength skipped l1 l2 exts tail.
        frame = take 43 frame @ [sessionIdLength] @ skipped @ [l1, l2]
                @ concat (map encode_extension exts) @ [0, 43, 0, 2, 3, 4] @ tail
        \<and> 43 \<le> length frame \<and> length skipped = unat sessionIdLength + 3
        \<and> length exts < unat (Uint16 l1 l2)
        \<and> (\<forall>e \<in> set exts. fst e \<noteq> 43 \<and> length (snd e) < 65536))"
proof
  assume tls13: "isServerHelloSupportTLS13 frame"
  then have len: "43 \<le> length frame"
    by (simp add: isServerHelloSupportTLS13_def split: if_splits)
  from tls13 len obtain n r1 where r1: "read_uint8 (drop 43 frame) = Some (n, r1)"
    and t1: "case CopyN_Discard r1 (unat n) of
               None \<Rightarrow> False
             | Some r2 \<Rightarrow>
                 (case CopyN_Discard r2 3 of
                    None \<Rightarrow> False
                  | Some r3 \<Rightarrow>
                      (case read_uint16 r3 of
                         None \<Rightarrow> False
                       | Some (l, r4) \<Rightarrow> scan_extensions 0 l r4))"
    by (cases "read_uint8 (drop 43 frame)") (auto simp: isServerHelloSupportTLS13_def)
  from t1 obtain r2 where r2: "CopyN_Discard r1 (unat n) = Some r2"
    and t2: "case CopyN_Discard r2 3 of
               None \<Rightarrow> False
             | Some r3 \<Rightarrow>
                 (case read_uint16 r3 of
                    None \<Rightarrow> False
                  | Some (l, r4) \<Rightarrow> scan_extensions 0 l r4)"
    by (cases "CopyN_Discard r1 (unat n)") auto
  from t2 obtain r3 where r3: "CopyN_Discard r2 3 = Some r3"
    and t3: "case read_uint16 r3 of None \<Rightarrow> False | Some (l, r4) \<Rightarrow> scan_extensions 0 l r4"
    by (cases "CopyN_Discard r2 3") auto
  from t3 obtain l r4 where r4: "read_uint16 r3 = Some (l, r4)"
    and scan: "scan_extensions 0 l r4"
    by (cases "read_uint16 r3") auto
  from r1 have f1: "drop 43 frame = n # r1"
    by (auto simp: read_uint8_def split: list.splits)
  from r2 r3 have skip: "unat n + 3 \<le> length r1" and r3_eq: "r3 = drop (unat n + 3) r1"
    by (auto simp: CopyN_Discard_def add.commute split: if_splits)
  from r4 obtain l1 l2 where f3: "r3 = l1 # l2 # r4" and l: "l = Uint16 l1 l2"
    by (auto simp: read_uint16_def split: list.splits)
  from scan_extensions_sound [OF scan] obtain exts tail where
    f4: "r4 = concat (map encode_extension exts) @ [0, 43, 0, 2, 3, 4] @ tail"
    and cnt: "length exts < unat l"
    and other: "\<forall>e \<in> set exts. fst e \<noteq> 43 \<and> length (snd e) < 65536"
    by auto
  have "frame = take 43 frame @ drop 43 frame" by simp
  also have "drop 43 frame = [n] @ take (unat n + 3) r1 @ r3"
    using f1 r3_eq by simp
  finally have "frame = take 43 frame @ [n] @ take (unat n + 3) r1 @ [l1, l2]
      @ concat (map encode_extension exts) @ [0, 43, 0, 2, 3, 4] @ tail"
    using f3 f4 by simp
  moreover have "length (take (unat n + 3) r1) = unat n + 3"
    using skip by simp
  ultimately show "\<exists>sessionIdLength skipped l1 l2 exts tail.
        frame = take 43 frame @ [sessionIdLength] @ skipped @ [l1, l2]
                @ concat (map encode_extension exts) @ [0, 43, 0, 2, 3, 4] @ tail
        \<and> 43 \<le> length frame \<and> length skipped = unat sessionIdLength + 3
        \<and> length exts < unat (Uint16 l1 l2)
        \<and> (\<forall>e \<in> set exts. fst e \<noteq> 43 \<and> length (snd e) < 65536)"
    using len cnt other l by blast
next
  assume "\<exists>sessionIdLength skipped l1 l2 exts tail.
        frame = take 43 frame @ [sessionIdLength] @ skipped @ [l1, l2]
                @ concat (map encode_extension exts) @ [0, 43, 0, 2, 3, 4] @ tail
        \<and> 43 \<le> length frame \<and> length skipped = unat sessionIdLength + 3
        \<and> length exts < unat (Uint16 l1 l2)
        \<and> (\<forall>e \<in> set exts. fst e \<noteq> 43 \<and> length (snd e) < 65536)"
  then obtain n skipped l1 l2 exts tail where
    f: "frame = take 43 frame @ [n] @ skipped @ [l1, l2]
                @ concat (map encode_extension exts) @ [0, 43, 0, 2, 3, 4] @ tail"
    and len: "43 \<le> length frame" and sk: "length skipped = unat n + 3"
    and cnt: "length exts < unat (Uint16 l1 l2)"
    and other: "\<forall>e \<in> set exts. fst e \<noteq> 43 \<and> length (snd e) < 65536"
    by blast
  let ?r4 = "concat (map encode_extension exts) @ [0, 43, 0, 2, 3, 4] @ tail"
  have "drop 43 frame = drop 43 (take 43 frame @ [n] @ skipped @ [l1, l2] @ ?r4)"
    using f by simp
  then have d: "drop 43 frame = [n] @ skipped @ [l1, l2] @ ?r4"
    using len by simp
  have scan: "scan_extensions 0 (Uint16 l1 l2) ?r4"
    using other cnt by (intro scan_extensions_complete) simp_all
  have c1: "CopyN_Discard (skipped @ [l1, l2] @ ?r4) (unat n)
            = Some (drop (unat n) skipped @ [l1, l2] @ ?r4)"
    using sk by (simp add: CopyN_Discard_def)
  have c2: "CopyN_Discard (drop (unat n) skipped @ [l1, l2] @ ?r4) 3 = Some ([l1, l2] @ ?r4)"
    using sk by (simp add: CopyN_Discard_def)
  show "isServerHelloSupportTLS13 frame"
    using len scan c1 c2
    by (simp add: isServerHelloSupportTLS13_def d read_uint8_def read_uint16_def)
qed

lemma scan_extensions_within_list:
  "length r \<le> unat n - unat i \<Longrightarrow> scan_extensions i n r = supported_versions_in r"
proof (induction r arbitrary: i rule: supported_versions_in.induct)
  case (1 r)
  show ?case
  proof (cases "read_uint16 r")
    case None
    then show ?thesis
      by (subst scan_extensions.simps, subst supported_versions_in.simps) simp
  next
    case (Some a)
    then obtain ty r1 where r1: "read_uint16 r = Some (ty, r1)" by (cases a) simp
    then have lr: "length r = length r1 + 2"
      by (auto simp: read_uint16_def split: list.splits)
    with "1.prems" have lt: "i < n" by (simp add: word_less_nat_alt)
    show ?thesis
    proof (cases "read_uint16 r1")
      case None
      then show ?thesis
        using r1 by (subst scan_extensions.simps, subst supported_versions_in.simps) simp
    next
      case (Some b)
      then obtain len r2 where r2: "read_uint16 r1 = Some (len, r2)" by (cases b) simp
      then have lr1: "length r1 = length r2 + 2"
        by (auto simp: read_uint16_def split: list.splits)
      show ?thesis
      proof (cases "ty = 43")
        case True
        then show ?thesis
          using r1 r2 lt
          by (subst scan_extensions.simps, subst supported_versions_in.simps)
             (auto split: option.splits)
      next
        case False
        show ?thesis
        proof (cases "CopyN_Discard r2 (unat len)")
          case None
          then show ?thesis
            using r1 r2 lt False
            by (subst scan_extensions.simps, subst supported_versions_in.simps) simp
        next
          case (Some r3)
          then have "length r3 \<le> length r2"
            by (auto simp: CopyN_Discard_def split: if_splits)
          then have "length r3 \<le> unat n - unat (i + 1)"
            using "1.prems" lr lr1 unat_succ_less [OF lt] by simp
          from "1.IH" [OF r1 refl r2 refl False Some this] show ?thesis
            using r1 r2 lt False Some
            by (subst scan_extensions.simps, subst supported_versions_in.simps) simp
        qed
      qed
    qed
  qed
qed

lemma well_formed_hello_agrees:
  assumes "length head = 43" and "length skipped = unat n + 3"
    and "length list = unat (Uint16 l1 l2)"
  shows "isServerHelloSupportTLS13 (head @ [n] @ skipped @ [l1, l2] @ list)
         = supported_versions_in list"
    and "is_tls13_claimed (head @ [n] @ skipped @ [l1, l2] @ list) = supported_versions_in list"
proof -
  have c1: "CopyN_Discard (skipped @ [l1, l2] @ list) (unat n)
            = Some (drop (unat n) skipped @ [l1, l2] @ list)"
    using assms(2) by (simp add: CopyN_Discard_def)
  have c2: "CopyN_Discard (drop (unat n) skipped @ [l1, l2] @ list) 3 = Some ([l1, l2] @ list)"
    using assms(2) by (simp add: CopyN_Discard_def)
  have scan: "scan_extensions 0 (Uint16 l1 l2) list = supported_versions_in list"
    using assms(3) by (intro scan_extensions_within_list) simp
  show "isServerHelloSupportTLS13 (head @ [n] @ skipped @ [l1, l2] @ list)
         = supported_versions_in list"
    using assms(1) c1 c2 scan
    by (simp add: isServerHelloSupportTLS13_def read_uint8_def read_uint16_def)
  show "is_tls13_claimed (head @ [n] @ skipped @ [l1, l2] @ list) = supported_versions_in list"
    using assms(1,3) c1 c2
    by (simp add: is_tls13_claimed_def read_uint8_def read_uint16_def)
qed

lemma hello_head_length [simp]: "length hello_head = 43"
  by (simp add: hello_head_def)

text \<open>
  C5 (as amended). \<open>isServerHelloSupportTLS13\<close> reads the session-id length at offset 43,
  skips the session id and 3 more bytes, reads the 16-bit length field, and then reads
  extensions from the rest of the record, where the length field bounds the number of
  extensions it looks at, not their bytes. It returns true exactly when, before that
  bound, it meets whole extensions of types other than \<open>002b\<close> followed by the extension
  \<open>00 2b 00 02 03 04\<close>; so it is false on a truncation, on a first \<open>002b\<close> extension of
  another length or value, and when the bound or the end of the record comes first. On a
  record whose extension list ends with the record, this is the parse of the list that
  the claim describes.
\<close>

theorem isServerHelloSupportTLS13_iff:
  "(isServerHelloSupportTLS13 frame =
     (\<exists>sessionIdLength skipped l1 l2 exts tail.
        frame = take 43 frame @ [sessionIdLength] @ skipped @ [l1, l2]
                @ concat (map encode_extension exts) @ [0, 43, 0, 2, 3, 4] @ tail
        \<and> 43 \<le> length frame \<and> length skipped = unat sessionIdLength + 3
        \<and> length exts < unat (Uint16 l1 l2)
        \<and> (\<forall>e \<in> set exts. fst e \<noteq> 43 \<and> length (snd e) < 65536)))
   \<and> (length head = 43 \<and> length skipped' = unat n + 3 \<and> length list = unat (Uint16 h l) \<longrightarrow>
        isServerHelloSupportTLS13 (head @ [n] @ skipped' @ [h, l] @ list)
        = is_tls13_claimed (head @ [n] @ skipped' @ [h, l] @ list))"
  using tls13_characterisation [of frame] well_formed_hello_agrees [of head skipped' n list h l]
  by simp

theorem isServerHelloSupportTLS13_iff_witness:
  "isServerHelloSupportTLS13 tls13_hello \<and> is_tls13_claimed tls13_hello"
proof -
  have "tls13_hello = take 43 tls13_hello @ [0] @ [0x13, 0x01, 0] @ [0, 10]
          @ concat (map encode_extension [(0, [])]) @ [0, 43, 0, 2, 3, 4] @ []
        \<and> 43 \<le> length tls13_hello \<and> length [0x13, 0x01, 0 :: byte] = unat (0 :: byte) + 3
        \<and> length [(0 :: 16 word, [] :: byte list)] < unat (Uint16 0 10)
        \<and> (\<forall>e \<in> set [(0 :: 16 word, [] :: byte list)]. fst e \<noteq> 43 \<and> length (snd e) < 65536)"
    by (simp add: tls13_hello_def encode_extension_def PutUint16_def)
  then have "\<exists>sessionIdLength skipped l1 l2 exts tail.
        tls13_hello = take 43 tls13_hello @ [sessionIdLength] @ skipped @ [l1, l2]
                @ concat (map encode_extension exts) @ [0, 43, 0, 2, 3, 4] @ tail
        \<and> 43 \<le> length tls13_hello \<and> length skipped = unat sessionIdLength + 3
        \<and> length exts < unat (Uint16 l1 l2)
        \<and> (\<forall>e \<in> set exts. fst e \<noteq> 43 \<and> length (snd e) < 65536)"
    by blast
  moreover have "tls13_hello
      = hello_head @ [0] @ [0x13, 0x01, 0] @ [0, 10] @ [0, 0, 0, 0, 0, 43, 0, 2, 3, 4]"
    by (simp add: tls13_hello_def)
  ultimately show ?thesis
    using isServerHelloSupportTLS13_iff
      [of tls13_hello hello_head "[0x13, 0x01, 0]" 0 "[0, 0, 0, 0, 0, 43, 0, 2, 3, 4]" 0 10]
    by auto
qed

text \<open>
  C5 as stated fails: in a record whose extension list is declared 4 bytes long and holds
  one empty extension of type 0, followed by the bytes \<open>00 2b 00 02 03 04\<close>, the list ends
  with no \<open>supported_versions\<close> extension, yet the function returns true.
\<close>

theorem extension_beyond_the_list:
  "isServerHelloSupportTLS13 stray_extension_hello \<and> \<not> is_tls13_claimed stray_extension_hello"
proof
  have "scan_extensions 0 4 (concat (map encode_extension [(0, [])]) @ [0, 43, 0, 2, 3, 4] @ [])"
    by (rule scan_extensions_complete) simp_all
  then have "scan_extensions 0 4 [0, 0, 0, 0, 0, 43, 0, 2, 3, 4]"
    by (simp add: encode_extension_def PutUint16_def)
  then show "isServerHelloSupportTLS13 stray_extension_hello"
    by (simp add: isServerHelloSupportTLS13_def stray_extension_hello_def read_uint8_def
        read_uint16_def CopyN_Discard_def)
  have "\<not> supported_versions_in [0, 0, 0, 0]"
    by (simp add: supported_versions_in.simps [of "[0, 0, 0, 0]"]
        supported_versions_in.simps [of "[]"] read_uint16_def CopyN_Discard_def)
  then show "\<not> is_tls13_claimed stray_extension_hello"
    by (simp add: is_tls13_claimed_def stray_extension_hello_def read_uint8_def
        read_uint16_def CopyN_Discard_def)
qed

subsection \<open>The relay from the client to the cover host\<close>

lemma copy_accept:
  assumes "incoming c = m @ rest" and "is_record m" and "is_first_frame (key hv) sr m"
  shows "copyByFrameUntilHMACMatches c hc hv (hmacVerifyReset sr) =
           (Inr (drop 9 m), c\<lparr>incoming := rest\<rparr>, hc,
            \<lparr>key = key hv, written = sr @ [0x43] @ drop 9 m @ subslice m 5 9\<rparr>)"
  using assms(3)
  by (subst copyByFrameUntilHMACMatches.simps)
     (simp add: extractFrame_record [OF assms(1,2)] is_first_frame_def hmacVerifyReset_def
       hmac_Write_def hmac_Reset_def hmac_Sum_def Let_def)

lemma copy_forward:
  assumes "incoming c = f @ rest" and "is_record f" and "\<not> is_first_frame (key hv) sr f"
    and "outcome (wresults hc) 0 = None"
  shows "\<exists>hv'. key hv' = key hv \<and>
           copyByFrameUntilHMACMatches c hc hv (hmacVerifyReset sr) =
           copyByFrameUntilHMACMatches (c\<lparr>incoming := rest\<rparr>) (snd (conn_Write hc f)) hv'
             (hmacVerifyReset sr)"
proof -
  obtain hc1 where w: "conn_Write hc f = (None, hc1)"
    using conn_Write_outcome(1) [of hc f] assms(4) by (cases "conn_Write hc f") simp
  then have hc1: "snd (conn_Write hc f) = hc1" by simp
  show ?thesis
    unfolding hc1
  proof (cases "9 < length f \<and> f ! 0 = 23")
    case True
    with assms(3) show "\<exists>hv'. key hv' = key hv \<and>
           copyByFrameUntilHMACMatches c hc hv (hmacVerifyReset sr) =
           copyByFrameUntilHMACMatches (c\<lparr>incoming := rest\<rparr>) hc1 hv' (hmacVerifyReset sr)"
      by (intro exI [of _ "hmac_Write (hmacVerifyReset sr hv) (drop 9 f)"])
         (subst copyByFrameUntilHMACMatches.simps,
          simp add: extractFrame_record [OF assms(1,2)] is_first_frame_def hmacVerifyReset_def
            hmac_Write_def hmac_Reset_def hmac_Sum_def Let_def w)
  next
    case False
    then show "\<exists>hv'. key hv' = key hv \<and>
           copyByFrameUntilHMACMatches c hc hv (hmacVerifyReset sr) =
           copyByFrameUntilHMACMatches (c\<lparr>incoming := rest\<rparr>) hc1 hv' (hmacVerifyReset sr)"
      by (intro exI [of _ hv])
         (subst copyByFrameUntilHMACMatches.simps,
          auto simp: extractFrame_record [OF assms(1,2)] w)
  qed
qed

lemma copy_closed:
  "incoming c = [] \<Longrightarrow>
   copyByFrameUntilHMACMatches c hc hv r = (Inl (Cause EOF ''read client record''), c, hc, hv)"
  by (subst copyByFrameUntilHMACMatches.simps) (simp add: extractFrame_def ReadFull_def)

lemma copy_prefix:
  "\<forall>f \<in> set pre. is_record f \<and> \<not> is_first_frame (key hv) sr f \<Longrightarrow>
   list_all (\<lambda>r. r = None) (wresults hc) \<Longrightarrow> incoming c = concat pre @ tail \<Longrightarrow>
   \<exists>hc' hv'. key hv' = key hv \<and> outgoing hc' = outgoing hc @ pre
     \<and> copyByFrameUntilHMACMatches c hc hv (hmacVerifyReset sr) =
         copyByFrameUntilHMACMatches (c\<lparr>incoming := tail\<rparr>) hc' hv' (hmacVerifyReset sr)"
proof (induction pre arbitrary: c hc hv)
  case Nil
  then have "c\<lparr>incoming := tail\<rparr> = c" by simp
  then show ?case by (intro exI [of _ hc] exI [of _ hv]) simp
next
  case (Cons f pre)
  have ok: "outcome (wresults hc) 0 = None"
    using Cons.prems(2) by (rule all_succeed_outcome)
  from Cons.prems have "incoming c = f @ (concat pre @ tail)" and "is_record f"
    and "\<not> is_first_frame (key hv) sr f"
    by simp_all
  from copy_forward [OF this ok] obtain hv1 where hv1: "key hv1 = key hv"
    and step: "copyByFrameUntilHMACMatches c hc hv (hmacVerifyReset sr) =
       copyByFrameUntilHMACMatches (c\<lparr>incoming := concat pre @ tail\<rparr>) (snd (conn_Write hc f))
         hv1 (hmacVerifyReset sr)"
    by blast
  have "\<exists>hc' hv'. key hv' = key hv1
      \<and> outgoing hc' = outgoing (snd (conn_Write hc f)) @ pre
      \<and> copyByFrameUntilHMACMatches (c\<lparr>incoming := concat pre @ tail\<rparr>) (snd (conn_Write hc f))
           hv1 (hmacVerifyReset sr) =
         copyByFrameUntilHMACMatches (c\<lparr>incoming := concat pre @ tail, incoming := tail\<rparr>) hc' hv'
           (hmacVerifyReset sr)"
    using Cons.prems(1,2) hv1
    by (intro Cons.IH) (simp_all add: conn_Write_outcome all_succeed_tl)
  then show ?case
    using hv1 ok by (auto simp: step conn_Write_outcome)
qed

text \<open>
  C6. While the writes to the cover host succeed, the relay loop forwards, unchanged and in
  order, every client record that is not an \<open>application_data\<close> record of more than 9
  bytes whose bytes 5 to 8 are the 4-byte HMAC of its payload under the seed of
  \<open>hmacVerify\<close> (server random, then the letter C). The first record that is one is
  returned without its 9-byte header, nothing of it reaches the cover host, and the chain
  is left at the seed followed by the payload and the tag. When the client closes before
  such a record, all records have been forwarded and the loop fails on the read.
\<close>

theorem first_frame_handoff:
  assumes "\<forall>f \<in> set pre. is_record f \<and> \<not> is_first_frame (key hv) sr f"
    and "list_all (\<lambda>r. r = None) (wresults hc)"
  shows "(is_record m \<and> is_first_frame (key hv) sr m \<and> incoming c = concat pre @ m @ rest \<longrightarrow>
            fst (copyByFrameUntilHMACMatches c hc hv (hmacVerifyReset sr)) = Inr (drop 9 m)
            \<and> fst (snd (copyByFrameUntilHMACMatches c hc hv (hmacVerifyReset sr)))
                = c\<lparr>incoming := rest\<rparr>
            \<and> outgoing (fst (snd (snd (copyByFrameUntilHMACMatches c hc hv (hmacVerifyReset sr)))))
                = outgoing hc @ pre
            \<and> snd (snd (snd (copyByFrameUntilHMACMatches c hc hv (hmacVerifyReset sr))))
                = \<lparr>key = key hv, written = sr @ [0x43] @ drop 9 m @ subslice m 5 9\<rparr>)
         \<and> (incoming c = concat pre \<longrightarrow>
            fst (copyByFrameUntilHMACMatches c hc hv (hmacVerifyReset sr))
              = Inl (Cause EOF ''read client record'')
            \<and> outgoing (fst (snd (snd (copyByFrameUntilHMACMatches c hc hv (hmacVerifyReset sr)))))
                = outgoing hc @ pre)"
proof (intro conjI impI)
  assume m: "is_record m \<and> is_first_frame (key hv) sr m \<and> incoming c = concat pre @ m @ rest"
  from copy_prefix [OF assms, of c "m @ rest"] m obtain hc' hv'
    where k: "key hv' = key hv" and out: "outgoing hc' = outgoing hc @ pre"
      and eq: "copyByFrameUntilHMACMatches c hc hv (hmacVerifyReset sr) =
         copyByFrameUntilHMACMatches (c\<lparr>incoming := m @ rest\<rparr>) hc' hv' (hmacVerifyReset sr)"
    by blast
  have acc: "copyByFrameUntilHMACMatches (c\<lparr>incoming := m @ rest\<rparr>) hc' hv' (hmacVerifyReset sr) =
      (Inr (drop 9 m), c\<lparr>incoming := m @ rest, incoming := rest\<rparr>, hc',
       \<lparr>key = key hv', written = sr @ [0x43] @ drop 9 m @ subslice m 5 9\<rparr>)"
    using m k by (intro copy_accept) simp_all
  show "fst (copyByFrameUntilHMACMatches c hc hv (hmacVerifyReset sr)) = Inr (drop 9 m)"
    and "fst (snd (copyByFrameUntilHMACMatches c hc hv (hmacVerifyReset sr))) = c\<lparr>incoming := rest\<rparr>"
    and "outgoing (fst (snd (snd (copyByFrameUntilHMACMatches c hc hv (hmacVerifyReset sr)))))
                = outgoing hc @ pre"
    and "snd (snd (snd (copyByFrameUntilHMACMatches c hc hv (hmacVerifyReset sr))))
                = \<lparr>key = key hv, written = sr @ [0x43] @ drop 9 m @ subslice m 5 9\<rparr>"
    by (simp_all add: eq acc out k)
next
  assume e: "incoming c = concat pre"
  from copy_prefix [OF assms, of c "[]"] e obtain hc' hv'
    where out: "outgoing hc' = outgoing hc @ pre"
      and eq: "copyByFrameUntilHMACMatches c hc hv (hmacVerifyReset sr) =
         copyByFrameUntilHMACMatches (c\<lparr>incoming := []\<rparr>) hc' hv' (hmacVerifyReset sr)"
    by auto
  show "fst (copyByFrameUntilHMACMatches c hc hv (hmacVerifyReset sr))
          = Inl (Cause EOF ''read client record'')"
    and "outgoing (fst (snd (snd (copyByFrameUntilHMACMatches c hc hv (hmacVerifyReset sr)))))
                = outgoing hc @ pre"
    by (simp_all add: eq copy_closed out)
qed

lemma relay_examples [simp]:
  "is_record first_frame" "is_record handshake_frame" "is_record unmarked_frame"
  "is_first_frame [1] example_random first_frame"
  "\<not> is_first_frame [1] example_random handshake_frame"
  "\<not> is_first_frame [1] example_random unmarked_frame"
  by (simp_all add: is_record_def is_first_frame_def first_frame_def handshake_frame_def
      unmarked_frame_def subslice_def nth_append Uint16_def map_succ_neq [symmetric])

theorem first_frame_handoff_witness:
  "fst (copyByFrameUntilHMACMatches
          (plain_conn (handshake_frame @ unmarked_frame @ first_frame @ [1, 2, 3]))
          (plain_conn []) (hmac_New [1]) (hmacVerifyReset example_random)) = Inr [9]
   \<and> fst (snd (copyByFrameUntilHMACMatches
          (plain_conn (handshake_frame @ unmarked_frame @ first_frame @ [1, 2, 3]))
          (plain_conn []) (hmac_New [1]) (hmacVerifyReset example_random))) = plain_conn [1, 2, 3]
   \<and> outgoing (fst (snd (snd (copyByFrameUntilHMACMatches
          (plain_conn (handshake_frame @ unmarked_frame @ first_frame @ [1, 2, 3]))
          (plain_conn []) (hmac_New [1]) (hmacVerifyReset example_random)))))
       = [handshake_frame, unmarked_frame]
   \<and> fst (copyByFrameUntilHMACMatches
          (plain_conn (handshake_frame @ unmarked_frame))
          (plain_conn []) (hmac_New [1]) (hmacVerifyReset example_random))
       = Inl (Cause EOF ''read client record'')"
  using first_frame_handoff [of "[handshake_frame, unmarked_frame]" "hmac_New [1]" example_random
      "plain_conn []" first_frame
      "plain_conn (handshake_frame @ unmarked_frame @ first_frame @ [1, 2, 3])" "[1, 2, 3]"]
    first_frame_handoff [of "[handshake_frame, unmarked_frame]" "hmac_New [1]" example_random
      "plain_conn []" first_frame "plain_conn (handshake_frame @ unmarked_frame)" "[]"]
  by (simp add: hmac_New_def plain_conn_def) (simp add: first_frame_def)

subsection \<open>Verification of a record\<close>

lemma is_record_examples [simp]:
  "is_record tagged_frame" "is_record mistagged_frame" "is_record empty_frame"
  by (simp_all add: is_record_def tagged_frame_def mistagged_frame_def empty_frame_def nth_append)

lemma example_frames_type [simp]:
  "tagged_frame ! 0 = 23" "mistagged_frame ! 0 = 23" "empty_frame ! 0 = 23"
  by (simp_all add: tagged_frame_def mistagged_frame_def empty_frame_def)

lemma verify_tagged:
  "verifyApplicationData tagged_frame example_chain u =
     (True, \<lparr>key = [1], written = [2, 7] @ (if u then take 4 (hmac_sha1 [1] [2, 7]) else [])\<rparr>)"
  by (simp add: verifyApplicationData_def tagged_frame_def example_chain_def hmac_Write_def
      hmac_Sum_def subslice_def nth_append Let_def)

lemma verify_mistagged:
  "verifyApplicationData mistagged_frame example_chain u =
     (False, \<lparr>key = [1], written = [2, 7] @ (if u then take 4 (hmac_sha1 [1] [2, 7]) else [])\<rparr>)"
  by (simp add: verifyApplicationData_def mistagged_frame_def example_chain_def hmac_Write_def
      hmac_Sum_def subslice_def nth_append Let_def map_succ_neq)

lemma verify_empty:
  "verifyApplicationData empty_frame example_chain False = (True, example_chain)"
  by (simp add: verifyApplicationData_def empty_frame_def example_chain_def hmac_Write_def
      hmac_Sum_def subslice_def nth_append Let_def)

text \<open>
  C4 (as amended). On a frame that has its five header bytes, a verification attempt
  leaves the tested chain as it was exactly when the frame is rejected by the version and
  length guard or, in read-only mode, when its payload is empty. Past the guard the
  payload is always fed into the chain, in read-only mode too and whether or not the tag
  matches; in advancing mode the computed tag is fed after it, which on success is the
  tag of the record, so that a successful check has advanced the chain by payload, then
  tag.
\<close>

theorem verifyApplicationData_chain:
  assumes "tlsHeaderSize \<le> length frame"
  shows "snd (verifyApplicationData frame h update) =
           (if frame ! 1 \<noteq> 3 \<or> frame ! 2 \<noteq> 3 \<or> length frame < 9 then h
            else if update
            then hmac_Write (hmac_Write h (drop 9 frame))
                   (take 4 (hmac_sha1 (key h) (written h @ drop 9 frame)))
            else hmac_Write h (drop 9 frame))
         \<and> (fst (verifyApplicationData frame h True) \<longrightarrow>
              snd (verifyApplicationData frame h True) =
                hmac_Write (hmac_Write h (drop 9 frame)) (subslice frame 5 9))
         \<and> ((snd (verifyApplicationData frame h update) = h)
              = (frame ! 1 \<noteq> 3 \<or> frame ! 2 \<noteq> 3 \<or> length frame < 9
                 \<or> (\<not> update \<and> length frame = 9)))"
proof -
  have grows: "h\<lparr>written := written h @ xs\<rparr> = h \<longleftrightarrow> xs = []" for xs
    by (cases h) auto
  have tag: "drop 9 frame @ take 4 (hmac_sha1 k m) \<noteq> []" for k m
    using length_hmac_sha1 [of k m] by (auto simp del: length_hmac_sha1)
  show ?thesis
    using tag
    by (auto simp: verifyApplicationData_def Let_def hmac_Write_def hmac_Sum_def grows)
qed

theorem verifyApplicationData_chain_witness:
  "tlsHeaderSize \<le> length tagged_frame
   \<and> fst (verifyApplicationData tagged_frame example_chain True)
   \<and> snd (verifyApplicationData tagged_frame example_chain True) =
       hmac_Write (hmac_Write example_chain [7]) (subslice tagged_frame 5 9)"
proof -
  have len: "tlsHeaderSize \<le> length tagged_frame"
    by (simp add: tagged_frame_def)
  show ?thesis
    using len verifyApplicationData_chain [OF len, of example_chain True]
    by (simp add: verify_tagged) (simp add: tagged_frame_def subslice_def example_chain_def hmac_Write_def)
qed

text \<open>
  C4 as stated fails: a read-only test of a record with payload \<open>[7]\<close> leaves the
  payload in the chain, and a record whose tag does not match fails the check in either
  mode and still changes the chain.
\<close>

theorem failed_verification_advances_chain:
  "snd (verifyApplicationData [23, 3, 3, 0, 5, 0, 0, 0, 0, 7] example_chain False)
     = \<lparr>key = [1], written = [2, 7]\<rparr>
   \<and> \<not> fst (verifyApplicationData mistagged_frame example_chain False)
   \<and> snd (verifyApplicationData mistagged_frame example_chain False) \<noteq> example_chain
   \<and> \<not> fst (verifyApplicationData mistagged_frame example_chain True)
   \<and> snd (verifyApplicationData mistagged_frame example_chain True) \<noteq> example_chain"
  by (simp add: verify_mistagged) (simp add: verifyApplicationData_def example_chain_def hmac_Write_def Let_def)

subsection \<open>Reading from the verified connection\<close>

lemma Read_loop_record:
  assumes "incoming (Conn c) = frame @ rest" and "is_record frame"
    and "frame ! 0 = applicationData"
  shows "Read_loop c blen =
     (let c1 = c\<lparr>Conn := (Conn c)\<lparr>incoming := rest\<rparr>, buffer := Some frame\<rparr>
      in case (case hmacIgnore c1 of
                 None \<Rightarrow> (False, c1)
               | Some hi \<Rightarrow>
                   (case verifyApplicationData frame hi False of
                      (True, hi') \<Rightarrow> (True, c1\<lparr>hmacIgnore := Some hi'\<rparr>)
                    | (False, hi') \<Rightarrow> (False, c1\<lparr>hmacIgnore := None\<rparr>))) of
           (True, c2) \<Rightarrow> Read_loop (c2\<lparr>buffer := None\<rparr>) blen
         | (False, c2) \<Rightarrow>
             (case verifyApplicationData frame (hmacVerify c2) True of
                (False, hv) \<Rightarrow>
                  (([], Some VerificationFailed),
                   c2\<lparr>hmacVerify := hv, Conn := sendAlert (Conn c2)\<rparr>)
              | (True, hv) \<Rightarrow>
                  buffer_Read (c2\<lparr>hmacVerify := hv\<rparr>) (drop tlsHmacHeaderSize frame) blen))"
proof -
  from assms(2) have "5 \<le> length frame" by (simp add: is_record_def)
  then have "take 5 frame ! 3 = frame ! 3" "take 5 frame ! 4 = frame ! 4" by simp_all
  then show ?thesis
    using read_record [OF assms(1,2)] assms(3)
    by (subst Read_loop.simps) (simp add: Let_def split: option.splits prod.splits bool.splits)
qed

lemma Read_start: "buffer c = None \<or> buffer c = Some [] \<Longrightarrow> Read c blen = Read_loop (c\<lparr>buffer := None\<rparr>) blen"
  by (cases c) (auto simp: Read_def)

lemma Read_loop_closed:
  "incoming (Conn c) = [] \<Longrightarrow> Read_loop c blen = (([], Some EOF), c\<lparr>Conn := sendAlert (Conn c)\<rparr>)"
  by (subst Read_loop.simps) (simp add: ReadFull_def)

text \<open>
  C10. When \<open>Read\<close> takes an \<open>application_data\<close> record from the connection whose version
  bytes are not \<open>03 03\<close>, it fails with the verification error whatever the tag is, the
  chain \<open>hmacVerify\<close> is left as it was, \<open>hmacIgnore\<close> is switched off, and the alert
  record (\<open>15 03 03 00 1a\<close> and 26 random bytes) is written when the random source
  delivers and the write succeeds.
\<close>

theorem Read_rejects_bad_version:
  assumes "incoming (Conn c) = frame @ rest" and "is_record frame"
    and "frame ! 0 = applicationData" and "frame ! 1 \<noteq> 3 \<or> frame ! 2 \<noteq> 3"
    and "buffer c = None \<or> buffer c = Some []"
  shows "Read c blen =
           (([], Some VerificationFailed),
            c\<lparr>Conn := sendAlert ((Conn c)\<lparr>incoming := rest\<rparr>), hmacIgnore := None,
              buffer := Some frame\<rparr>)
         \<and> (26 \<le> length (entropy (Conn c)) \<and> write_succeeds (Conn c) \<longrightarrow>
              outgoing (Conn (snd (Read c blen))) =
                outgoing (Conn c) @ [[21, 3, 3, 0, 26] @ take 26 (entropy (Conn c))])"
proof -
  have v: "verifyApplicationData frame h u = (False, h)" for h u
    using assms(4) by (auto simp: verifyApplicationData_def)
  have "Read c blen =
           (([], Some VerificationFailed),
            c\<lparr>Conn := sendAlert ((Conn c)\<lparr>incoming := rest\<rparr>), hmacIgnore := None,
              buffer := Some frame\<rparr>)"
    using assms(1,2,3)
    by (simp add: Read_start [OF assms(5)] Read_loop_record [of _ frame rest] v Let_def
        split: option.splits)
  moreover have "write_succeeds ((Conn c)\<lparr>incoming := rest\<rparr>) = write_succeeds (Conn c)"
    by (simp add: write_succeeds_def)
  ultimately show ?thesis
    by (simp add: sendAlert_outgoing)
qed

lemma is_record_bad_version [simp]: "is_record bad_version_frame"
  by (simp add: is_record_def bad_version_frame_def nth_append)

theorem Read_rejects_bad_version_witness:
  "subslice bad_version_frame 5 9 = take 4 (hmac_sha1 [1] ([3] @ drop 9 bad_version_frame))
   \<and> fst (Read (example_conn bad_version_frame None) 100) = ([], Some VerificationFailed)
   \<and> outgoing (Conn (snd (Read (example_conn bad_version_frame None) 100)))
       = [[21, 3, 3, 0, 26] @ replicate 26 9]"
  using Read_rejects_bad_version
    [of "example_conn bad_version_frame None" bad_version_frame "[]" 100]
  by (simp add: example_conn_def write_succeeds_def sendAlert_def rand_Read_def conn_Write_def)
     (simp add: bad_version_frame_def subslice_def)

text \<open>
  C3 (as amended). With \<open>hmacIgnore\<close> set, a record that matches it is dropped and
  \<open>hmacIgnore\<close> stays set (with the payload fed into it): \<open>Read\<close> goes on with the next
  record, which is tested against \<open>hmacIgnore\<close> again. A record that does not match it
  switches \<open>hmacIgnore\<close> off and is verified against \<open>hmacVerify\<close>.
\<close>

theorem Read_ignore_chain:
  assumes "incoming (Conn c) = frame @ rest" and "is_record frame"
    and "frame ! 0 = applicationData" and "buffer c = None \<or> buffer c = Some []"
    and "hmacIgnore c = Some hi"
  shows "(fst (verifyApplicationData frame hi False) \<longrightarrow>
            Read c blen =
              Read (c\<lparr>Conn := (Conn c)\<lparr>incoming := rest\<rparr>,
                      hmacIgnore := Some (snd (verifyApplicationData frame hi False)),
                      buffer := None\<rparr>) blen)
         \<and> (\<not> fst (verifyApplicationData frame hi False) \<longrightarrow>
            Read c blen =
              (case verifyApplicationData frame (hmacVerify c) True of
                 (False, hv) \<Rightarrow>
                   (([], Some VerificationFailed),
                    c\<lparr>Conn := sendAlert ((Conn c)\<lparr>incoming := rest\<rparr>), hmacVerify := hv,
                      hmacIgnore := None, buffer := Some frame\<rparr>)
               | (True, hv) \<Rightarrow>
                   buffer_Read
                     (c\<lparr>Conn := (Conn c)\<lparr>incoming := rest\<rparr>, hmacVerify := hv,
                        hmacIgnore := None, buffer := Some frame\<rparr>)
                     (drop 9 frame) blen))"
proof -
  have start: "Read c blen = Read_loop (c\<lparr>buffer := None\<rparr>) blen"
    by (rule Read_start [OF assms(4)])
  have again: "Read (c'\<lparr>buffer := None\<rparr>) blen = Read_loop (c'\<lparr>buffer := None\<rparr>) blen" for c'
    by (simp add: Read_def)
  have step: "incoming (Conn (c\<lparr>buffer := None\<rparr>)) = frame @ rest"
    using assms(1) by simp
  have loop: "Read c blen =
      (case verifyApplicationData frame hi False of
         (True, hi') \<Rightarrow>
           Read_loop (c\<lparr>Conn := (Conn c)\<lparr>incoming := rest\<rparr>, hmacIgnore := Some hi',
                        buffer := None\<rparr>) blen
       | (False, hi') \<Rightarrow>
           (case verifyApplicationData frame (hmacVerify c) True of
              (False, hv) \<Rightarrow>
                (([], Some VerificationFailed),
                 c\<lparr>Conn := sendAlert ((Conn c)\<lparr>incoming := rest\<rparr>), hmacVerify := hv,
                   hmacIgnore := None, buffer := Some frame\<rparr>)
            | (True, hv) \<Rightarrow>
                buffer_Read
                  (c\<lparr>Conn := (Conn c)\<lparr>incoming := rest\<rparr>, hmacVerify := hv,
                     hmacIgnore := None, buffer := Some frame\<rparr>)
                  (drop 9 frame) blen))"
    unfolding start Read_loop_record [OF step assms(2,3)]
    using assms(5)
    by (cases c) (simp add: Let_def split: prod.splits bool.splits)
  show ?thesis
    unfolding loop
    by (cases c) (auto simp: Read_def split: prod.splits bool.splits)
qed

theorem Read_ignore_chain_witness:
  "Read (example_conn tagged_frame (Some example_chain)) 100 =
     Read (example_conn [] (Some \<lparr>key = [1], written = [2, 7]\<rparr>)) 100
   \<and> hmacIgnore (snd (Read (example_conn mistagged_frame (Some example_chain)) 100)) = None
   \<and> hmacVerify (snd (Read (example_conn mistagged_frame (Some example_chain)) 100))
       = \<lparr>key = [1], written = [3, 7] @ take 4 (hmac_sha1 [1] [3, 7])\<rparr>"
  using Read_ignore_chain [of "example_conn tagged_frame (Some example_chain)" tagged_frame "[]"
      example_chain 100]
    Read_ignore_chain [of "example_conn mistagged_frame (Some example_chain)" mistagged_frame "[]"
      example_chain 100]
  by (simp add: example_conn_def verify_tagged verify_mistagged)
     (simp add: verifyApplicationData_def mistagged_frame_def Let_def hmac_Write_def hmac_Sum_def
        subslice_def nth_append buffer_Read_def split: bool.splits)

text \<open>
  C3 as stated fails: of two records that both match \<open>hmacIgnore\<close>, the second is dropped
  like the first. \<open>Read\<close> reaches the end of the stream with \<open>hmacIgnore\<close> still set and
  \<open>hmacVerify\<close> untouched.
\<close>

theorem ignore_chain_stays_enabled:
  "Read (example_conn (empty_frame @ empty_frame) (Some example_chain)) 100 =
     (([], Some EOF),
      \<lparr>Conn = \<lparr>incoming = [], outgoing = [[21, 3, 3, 0, 26] @ replicate 26 9], wresults = [],
               entropy = []\<rparr>,
       hmacAdd = hmac_New [1], hmacVerify = \<lparr>key = [1], written = [3]\<rparr>,
       hmacIgnore = Some example_chain, buffer = None\<rparr>)"
proof -
  let ?c = "example_conn (empty_frame @ empty_frame) (Some example_chain)"
  have app: "empty_frame ! 0 = applicationData"
    by (simp add: empty_frame_def)
  have 1: "Read ?c 100 = Read_loop (example_conn empty_frame (Some example_chain)) 100"
    using Read_loop_record [of ?c empty_frame empty_frame 100] app
    by (simp add: Read_def example_conn_def verify_empty)
  have 2: "Read_loop (example_conn empty_frame (Some example_chain)) 100
           = Read_loop (example_conn [] (Some example_chain)) 100"
    using Read_loop_record [of "example_conn empty_frame (Some example_chain)" empty_frame "[]" 100]
      app
    by (simp add: example_conn_def verify_empty)
  show ?thesis
    unfolding 1 2
    by (simp add: Read_loop_closed example_conn_def sendAlert_def rand_Read_def conn_Write_def)
qed

subsection \<open>Writing to the verified connection\<close>

lemma chunk_count_short: "0 < m \<Longrightarrow> m \<le> n \<Longrightarrow> (m + (n - 1)) div n = (1::nat)"
  by (rule div_nat_eqI) auto

lemma chunk_count_long:
  assumes "0 < n" and "n < m"
  shows "(m + (n - 1)) div n = Suc ((m - n + (n - 1)) div n)"
proof -
  have "m + (n - 1) = (m - n + (n - 1)) + n"
    using assms by simp
  moreover have "((m - n + (n - 1)) + n) div n = (m - n + (n - 1)) div n + 1"
    using assms by (subst div_add_self2) simp_all
  ultimately show ?thesis by simp
qed

lemma upt_Suc_shift: "[0..<Suc k] = 0 # map Suc [0..<k]"
  by (simp add: upt_conv_Cons map_Suc_upt del: upt_Suc)

lemma chunks_short:
  assumes "p \<noteq> []" and "length p \<le> n"
  shows "map (\<lambda>i. take n (drop (n * i) p)) [0..<(length p + (n - 1)) div n] = [p]"
proof -
  have "(length p + (n - 1)) div n = 1"
    using assms by (intro chunk_count_short) simp_all
  then show ?thesis
    using assms by simp
qed

lemma chunks_long:
  assumes "0 < n" and "n < length p"
  shows "map (\<lambda>i. take n (drop (n * i) p)) [0..<(length p + (n - 1)) div n]
         = take n p
           # map (\<lambda>i. take n (drop (n * i) (drop n p))) [0..<(length (drop n p) + (n - 1)) div n]"
proof -
  have "(length p + (n - 1)) div n = Suc ((length (drop n p) + (n - 1)) div n)"
    using chunk_count_long [OF assms] by simp
  then show ?thesis
    by (simp add: upt_Suc_shift o_def add.commute del: upt_Suc)
qed

lemma fragments_Nil [simp]: "fragments [] = []"
  by (simp add: fragments_def)

lemma fragments_short: "p \<noteq> [] \<Longrightarrow> length p \<le> 16384 \<Longrightarrow> fragments p = [p]"
  using chunks_short [of p 16384] by (simp add: fragments_def)

lemma fragments_long:
  "16384 < length p \<Longrightarrow> fragments p = take 16384 p # fragments (drop 16384 p)"
  using chunks_long [of 16384 p] by (simp add: fragments_def)

lemma write_one_result:
  "snd (fst (write_one c q)) = outcome (wresults (Conn c)) 0"
  "fst (fst (write_one c q)) = (if outcome (wresults (Conn c)) 0 = None then length q else 0)"
  "wresults (Conn (snd (write_one c q))) = tl (wresults (Conn c))"
  "hmacAdd (snd (write_one c q)) = chain_step (hmacAdd c) q"
  by (simp_all add: write_one_def Let_def conn_Write_outcome chain_step_def tag_of_def
      hmac_Write_def hmac_Sum_def case_prod_beta)

lemma write_one_outgoing:
  "length q \<le> 16384 \<Longrightarrow> outcome (wresults (Conn c)) 0 = None \<Longrightarrow>
   outgoing (Conn (snd (write_one c q))) = outgoing (Conn c) @ [tagged_record (hmacAdd c) q]"
  by (simp add: write_one_def Let_def conn_Write_outcome tagged_record_def tag_of_def
      hmac_Write_def hmac_Sum_def PutUint16_length case_prod_beta)

lemma Write_loop_records:
  "list_all (\<lambda>r. r = None) (wresults (Conn c)) \<Longrightarrow>
   outgoing (Conn (snd (Write_loop c p err)))
     = outgoing (Conn c) @ tagged_records (hmacAdd c) (fragments p)
   \<and> hmacAdd (snd (Write_loop c p err)) = chain_after (hmacAdd c) (fragments p)"
proof (induction c p err rule: Write_loop.induct)
  case (1 c p err)
  have ok: "outcome (wresults (Conn c)) 0 = None"
    using "1.prems" by (rule all_succeed_outcome)
  show ?case
  proof (cases "p = []")
    case True
    then show ?thesis by (subst (1 2) Write_loop.simps) simp
  next
    case False
    show ?thesis
    proof (cases "16384 < length p")
      case True
      have tl: "list_all (\<lambda>r. r = None) (wresults (Conn (snd (write_one c (take 16384 p)))))"
        using "1.prems" by (simp add: write_one_result all_succeed_tl)
      show ?thesis
        using "1.IH"(1) [OF _ True tl] True False ok
        by (subst (1 2) Write_loop.simps)
           (simp add: fragments_long write_one_result write_one_outgoing)
    next
      case short: False
      show ?thesis
        using short False ok
        by (subst (1 2) Write_loop.simps)
           (simp add: fragments_short write_one_result write_one_outgoing Write_loop.simps [of _ "[]"])
    qed
  qed
qed

lemma Write_loop_error:
  "fst (Write_loop c p err) =
     (if p = [] then err else outcome (wresults (Conn c)) ((length p + 16383) div 16384 - 1))
   \<and> wresults (Conn (snd (Write_loop c p err)))
       = drop ((length p + 16383) div 16384) (wresults (Conn c))"
proof (induction c p err rule: Write_loop.induct)
  case (1 c p err)
  show ?case
  proof (cases "p = []")
    case True
    then show ?thesis by (subst (1 2) Write_loop.simps) simp
  next
    case False
    show ?thesis
    proof (cases "16384 < length p")
      case True
      have n: "(length p + 16383) div 16384 = Suc ((length (drop 16384 p) + 16383) div 16384)"
        using chunk_count_long [of 16384 "length p"] True by simp
      have pos: "0 < (length (drop 16384 p) + 16383) div 16384"
        using True by (simp add: div_greater_zero_iff)
      show ?thesis
        using "1.IH"(1) [OF _ True] True False pos
        by (subst (1 2) Write_loop.simps)
           (simp add: n write_one_result outcome_tl drop_Suc)
    next
      case short: False
      have n: "(length p + 16383) div 16384 = 1"
        using chunk_count_short [of "length p" 16384] short False by simp
      show ?thesis
        using short False
        by (subst (1 2) Write_loop.simps)
           (simp add: n write_one_result Write_loop.simps [of _ "[]"] drop_Suc)
    qed
  qed
qed

lemma concat_fragments: "concat (fragments p) = p"
proof (induction "length p" arbitrary: p rule: less_induct)
  case less
  show ?case
  proof (cases "16384 < length p")
    case True
    then have "concat (fragments (drop 16384 p)) = drop 16384 p"
      by (intro less) simp
    with True show ?thesis by (simp add: fragments_long)
  next
    case False
    then show ?thesis by (cases "p = []") (simp_all add: fragments_short)
  qed
qed

lemma fragments_20000:
  assumes "length p = 20000"
  shows "fragments p = [take 16384 p, drop 16384 p]"
proof -
  have "fragments (drop 16384 p) = [drop 16384 p]"
    using assms by (intro fragments_short) auto
  then show ?thesis using assms by (simp add: fragments_long)
qed

text \<open>
  C7. While the writes to the connection succeed, \<open>Write\<close> emits one record for each
  fragment of the payload, in order; the fragments are the successive 16384-byte pieces of
  the payload (the last one is what remains), so 20000 bytes leave as 16384 and 3616. Each
  record is \<open>17 03 03\<close>, the big-endian length of tag and fragment, the 4-byte tag and
  the fragment; the tag is the MAC of the chain \<open>hmacAdd\<close> with the fragment fed into it,
  and the chain goes on with the tag fed after the fragment.
\<close>

theorem Write_fragments:
  assumes "list_all (\<lambda>r. r = None) (wresults (Conn c))"
  shows "outgoing (Conn (snd (Write c p)))
           = outgoing (Conn c) @ tagged_records (hmacAdd c) (fragments p)
         \<and> hmacAdd (snd (Write c p)) = chain_after (hmacAdd c) (fragments p)
         \<and> fst (Write c p) = (length p, None)
         \<and> concat (fragments p) = p
         \<and> (length p = 20000 \<longrightarrow>
              fragments p = [take 16384 p, drop 16384 p]
              \<and> map length (fragments p) = [16384, 3616])"
proof -
  have "fst (Write_loop c p None) = None"
    using Write_loop_error [of c p None] assms by (simp add: all_succeed_outcome)
  then show ?thesis
    using Write_loop_records [OF assms, of p None]
    by (auto simp: Write_def case_prod_beta concat_fragments fragments_20000)
qed

theorem Write_fragments_witness:
  "map length (fragments (replicate 20000 0)) = [16384, 3616]
   \<and> outgoing (Conn (snd (Write (example_conn [] None) (replicate 20000 0))))
       = tagged_records (hmac_New [1]) [replicate 16384 0, replicate 3616 0]
   \<and> fst (Write (example_conn [] None) (replicate 20000 0)) = (20000, None)"
  using Write_fragments [of "example_conn [] None" "replicate 20000 0"]
  by (simp add: example_conn_def)

text \<open>
  C9. For a payload of more than 16384 bytes, \<open>Write\<close> makes one write call per fragment,
  whatever the earlier calls returned, and reports the outcome of the last call only: the
  whole length and no error when the last fragment's write succeeds, also when the write
  of an earlier fragment failed, and 0 with the error when the last one fails.
\<close>

theorem Write_error_of_last_fragment:
  assumes "16384 < length p"
  shows "fst (Write c p) =
           (case outcome (wresults (Conn c)) ((length p + 16383) div 16384 - 1) of
              None \<Rightarrow> (length p, None)
            | Some e \<Rightarrow> (0, Some e))
         \<and> wresults (Conn (snd (Write c p)))
             = drop ((length p + 16383) div 16384) (wresults (Conn c))
         \<and> ((\<exists>k < (length p + 16383) div 16384 - 1. outcome (wresults (Conn c)) k \<noteq> None)
              \<and> outcome (wresults (Conn c)) ((length p + 16383) div 16384 - 1) = None
              \<longrightarrow> fst (Write c p) = (length p, None))"
proof -
  from assms have "p \<noteq> []" by auto
  then show ?thesis
    using Write_loop_error [of c p None]
    by (auto simp: Write_def case_prod_beta split: option.splits)
qed

theorem Write_error_of_last_fragment_witness:
  "fst (Write (example_conn [] None
               \<lparr>Conn := \<lparr>incoming = [], outgoing = [], wresults = [Some (ConnError 1), None],
                         entropy = []\<rparr>\<rparr>)
          (replicate 16385 0)) = (16385, None)"
  using Write_error_of_last_fragment
    [of "replicate 16385 0"
        "example_conn [] None
           \<lparr>Conn := \<lparr>incoming = [], outgoing = [], wresults = [Some (ConnError 1), None],
                     entropy = []\<rparr>\<rparr>"]
  by (simp add: example_conn_def outcome_def)

subsection \<open>The relay from the cover host and the chains of a session\<close>




lemma cover_frames [simp]:
  "is_record cover_frame" "cover_frame ! 0 = 23" "drop 5 cover_frame = [8]"
  "take 3 cover_frame = [23, 3, 3]" "handshake_frame ! 0 = 22"
  by (simp_all add: cover_frame_def handshake_frame_def is_record_def Uint16_def)

lemma example_mask [simp]:
  "xorSlice example_runtime [8] (kdf example_runtime [1] example_random) = [9]"
  by (simp add: example_runtime_def example_random_def)




end
